theory Spec2Isabelle
  imports Main
begin

section \<open>JavaScript values\<close>

text \<open>
  The values that travel through \<^verbatim>\<open>src/remotify.ts\<close>: call arguments, handler
  results, thrown values, parsed messages. A plain object is the list of its own
  enumerable string-keyed properties, in the order \<^verbatim>\<open>Object.keys\<close> gives them.
  An \<^verbatim>\<open>Error\<close> instance is \<open>Err m s n own\<close>: \<open>own\<close> are its own enumerable
  properties, and \<open>m\<close>, \<open>s\<close>, \<open>n\<close> are what \<^verbatim>\<open>e.message\<close>, \<^verbatim>\<open>e.stack\<close> and
  \<^verbatim>\<open>e.name\<close> read when no own enumerable property of that name shadows them (the
  non-enumerable own properties and the prototype's). Numbers are the integer-valued
  ones; fractions, \<^verbatim>\<open>NaN\<close>, the infinities, negative zero, bigints, functions,
  symbols, objects with cycles and class instances other than \<^verbatim>\<open>Error\<close> are not
  represented. A number of JavaScript is a double, and \<open>Num n\<close> stands for the double
  whose value is \<open>n\<close>: there is one for every \<open>n\<close> from \<open>- (2 ^ 53)\<close> to \<open>2 ^ 53\<close>,
  and beyond that range only for the \<open>n\<close> that 53 significant bits write. For any
  other \<open>n\<close>, \<open>Num n\<close> is a value the program never holds, and nothing is claimed
  about it. A string is its list of characters; the only character the program
  looks for is the slash.
\<close>

datatype jsval =
    Undefined
  | Null
  | Bool bool
  | Num int
  | Str string
  | Arr "jsval list"
  | Obj "(string \<times> jsval) list"
  | Err jsval jsval jsval "(string \<times> jsval) list"

text \<open>
  \<^verbatim>\<open>obj[k] = v\<close>: an existing property keeps its place, a new one goes last.
  JavaScript lists keys that are array indices before the others; the model does not
  treat them apart, and nothing below depends on the order of properties.
\<close>

fun set_prop :: "(string \<times> 'v) list \<Rightarrow> string \<Rightarrow> 'v \<Rightarrow> (string \<times> 'v) list" where
  "set_prop [] k v = [(k, v)]"
| "set_prop ((k', v') # ps) k v =
     (if k' = k then (k', v) # ps else (k', v') # set_prop ps k v)"

definition get_prop :: "(string \<times> jsval) list \<Rightarrow> string \<Rightarrow> jsval" where
  "get_prop ps k = (case map_of ps k of None \<Rightarrow> Undefined | Some v \<Rightarrow> v)"

text \<open>\<^verbatim>\<open>e[k]\<close> on an object or an error; a missing property reads \<^verbatim>\<open>undefined\<close>.\<close>

fun read :: "jsval \<Rightarrow> string \<Rightarrow> jsval" where
  "read (Obj ps) k = get_prop ps k"
| "read (Err m s n own) k =
     (case map_of own k of
        Some v \<Rightarrow> v
      | None \<Rightarrow> if k = ''message'' then m else if k = ''stack'' then s
                else if k = ''name'' then n else Undefined)"
| "read _ k = Undefined"

fun Object_keys :: "jsval \<Rightarrow> string list" where
  "Object_keys (Obj ps) = map fst ps"
| "Object_keys (Err m s n own) = map fst own"
| "Object_keys _ = []"

fun is_Error :: "jsval \<Rightarrow> bool" where
  "is_Error (Err m s n own) = True"
| "is_Error _ = False"

text \<open>
  \<^verbatim>\<open>new Error(msg)\<close>. The stack text is the engine's; the model keeps its first line
  and leaves the frame lines out.
\<close>

definition new_Error :: "string \<Rightarrow> jsval" where
  "new_Error msg = Err (Str msg) (Str (''Error: '' @ msg)) (Str ''Error'') []"

text \<open>Truthiness, as \<^verbatim>\<open>cond ? a : b\<close> and \<^verbatim>\<open>if (x)\<close> test it.\<close>

fun truthy :: "jsval \<Rightarrow> bool" where
  "truthy Undefined = False"
| "truthy Null = False"
| "truthy (Bool b) = b"
| "truthy (Num n) = (n \<noteq> 0)"
| "truthy (Str s) = (s \<noteq> [])"
| "truthy _ = True"

subsection \<open>jsonReplacer\<close>

text \<open>
  \<^verbatim>\<open>
  function jsonReplacer(_key: string, e: any) {
    if (e instanceof Error) {
      const obj: any = { message: e.message, stack: e.stack, name: e.name };
      for (const k of Object.keys(e)) obj[k] = (e as any)[k];
      return obj;
    }
    return e;
  }
  \<close>
\<close>

definition error_record :: "jsval \<Rightarrow> (string \<times> jsval) list" where
  "error_record e =
     foldl (\<lambda>obj k. set_prop obj k (read e k))
       [(''message'', read e ''message''), (''stack'', read e ''stack''),
        (''name'', read e ''name'')]
       (Object_keys e)"

definition jsonReplacer :: "jsval \<Rightarrow> jsval" where
  "jsonReplacer e = (if is_Error e then Obj (error_record e) else e)"

subsection \<open>Sizes, for the recursions below\<close>

lemma size_map_of:
  "map_of ps k = Some v \<Longrightarrow> size (v::jsval) < Suc (size_list (size_prod (\<lambda>x. 0) size) ps)"
  by (induction ps) (auto split: if_splits)

lemma size_member:
  "(k, v) \<in> set ps \<Longrightarrow> size (v::jsval) < Suc (size_list (size_prod (\<lambda>x. 0) size) ps)"
  by (induction ps) auto

lemma size_read_Err: "size (read (Err m s n own) k) < size (Err m s n own)"
proof (cases "map_of own k")
  case None
  then show ?thesis by simp
next
  case (Some v)
  from size_map_of [OF Some] Some show ?thesis by simp
qed

lemma set_prop_values: "(k', v') \<in> set (set_prop ps k v) \<Longrightarrow> (k', v') \<in> set ps \<or> v' = v"
  by (induction ps) (auto split: if_splits)

lemma foldl_set_prop_values:
  "(k', v') \<in> set (foldl (\<lambda>obj k. set_prop obj k (f k)) ps ks) \<Longrightarrow>
     (k', v') \<in> set ps \<or> (\<exists>k \<in> set ks. v' = f k)"
proof (induction ks arbitrary: ps)
  case Nil
  then show ?case by simp
next
  case (Cons k ks)
  from Cons.IH [OF Cons.prems [simplified]] show ?case
    by (auto dest: set_prop_values)
qed

lemma error_record_values:
  "(k, v) \<in> set (error_record e) \<Longrightarrow> \<exists>k'. v = read e k'"
  unfolding error_record_def by (auto dest!: foldl_set_prop_values)

lemma size_error_record:
  assumes "(k, v) \<in> set (error_record (Err m s n own))"
  shows "size v < size (Err m s n own)"
proof -
  from assms obtain k' where "v = read (Err m s n own) k'"
    using error_record_values by blast
  then show ?thesis using size_read_Err [of m s n own k'] by simp
qed

section \<open>JSON\<close>

text \<open>
  \<^verbatim>\<open>JSON.stringify\<close> and \<^verbatim>\<open>JSON.parse\<close> are the engine's. Of a text on the bus
  the model keeps what \<^verbatim>\<open>JSON.parse\<close> makes of it: the JSON document it denotes
  (\<open>Doc\<close>), or that it is not JSON (\<open>NotJson\<close>, where \<^verbatim>\<open>JSON.parse\<close> throws a
  \<^verbatim>\<open>SyntaxError\<close>).
\<close>

datatype json =
    JNull
  | JBool bool
  | JNum int
  | JStr string
  | JArr "json list"
  | JObj "(string \<times> json) list"

datatype payload = Doc json | NotJson string

datatype exn = SyntaxError | TypeError

datatype replacer = NoReplacer | JsonReplacer

text \<open>
  \<^verbatim>\<open>SerializeJSONProperty\<close> of ECMAScript, on the value already read from its
  holder: the replacer is applied to the value first (\<open>jsonReplacer\<close> changes errors
  only), \<^verbatim>\<open>undefined\<close> has no serialization (\<open>None\<close>), an array writes \<^verbatim>\<open>null\<close>
  for such an element, and an object leaves such a property out. Without a replacer
  an \<^verbatim>\<open>Error\<close> is serialized as any object is, through its own enumerable
  properties. \<^verbatim>\<open>JSON.stringify\<close> throws a \<^verbatim>\<open>TypeError\<close> on an object with a
  cycle and on a bigint, and calls \<^verbatim>\<open>toJSON\<close> where a value has one; \<open>jsval\<close> has
  no such value, so \<open>serialize\<close> has no such branch, and what is proved of handler
  results and thrown values is proved of the values of \<open>jsval\<close> only.
\<close>

function (sequential) serialize :: "replacer \<Rightarrow> jsval \<Rightarrow> json option" where
  "serialize r Undefined = None"
| "serialize r Null = Some JNull"
| "serialize r (Bool b) = Some (JBool b)"
| "serialize r (Num n) = Some (JNum n)"
| "serialize r (Str s) = Some (JStr s)"
| "serialize r (Arr xs) =
     Some (JArr (map (\<lambda>x. case serialize r x of None \<Rightarrow> JNull | Some j \<Rightarrow> j) xs))"
| "serialize r (Obj ps) =
     Some (JObj (concat (map (\<lambda>(k, x). case serialize r x of None \<Rightarrow> [] | Some j \<Rightarrow> [(k, j)]) ps)))"
| "serialize NoReplacer (Err m s n own) =
     Some (JObj (concat (map (\<lambda>(k, x). case serialize NoReplacer x of None \<Rightarrow> []
                                        | Some j \<Rightarrow> [(k, j)]) own)))"
| "serialize JsonReplacer (Err m s n own) =
     Some (JObj (concat (map (\<lambda>(k, x). case serialize JsonReplacer x of None \<Rightarrow> []
                                        | Some j \<Rightarrow> [(k, j)])
                          (error_record (Err m s n own)))))"
  by pat_completeness auto
termination
proof (relation "measure (\<lambda>(r, v). size v)", goal_cases)
  case 1
  then show ?case by simp
next
  case (2 r xs x)
  then show ?case by (simp add: less_Suc_eq_le size_list_estimation')
next
  case (3 r ps kx k x)
  then show ?case by (auto dest: size_member)
next
  case (4 m s n own kx k x)
  then show ?case using size_member [of k x own] by auto
next
  case (5 m s n own kx k x)
  then show ?case by (auto dest: size_error_record)
qed

text \<open>
  \<^verbatim>\<open>JSON.stringify(v, replacer)\<close>. It returns \<^verbatim>\<open>undefined\<close>, not a text, where
  the value has no serialization; the program stringifies object literals only, where
  that does not arise.
\<close>

definition JSON_stringify :: "replacer \<Rightarrow> jsval \<Rightarrow> payload" where
  "JSON_stringify r v = (case serialize r v of Some j \<Rightarrow> Doc j | None \<Rightarrow> NotJson ''undefined'')"

text \<open>
  The value a JSON document parses to. Members are defined in text order, so of two
  members with one key the later value stays, at the earlier place. \<open>JNum n\<close> is a
  numeral whose value is \<open>n\<close>. \<^verbatim>\<open>JSON.parse\<close> reads a numeral as the double
  nearest to its value, which is \<open>n\<close> itself exactly when a double has the value
  \<open>n\<close>; the rounding of other numerals (integers of more than 53 significant bits,
  such as \<open>2 ^ 53 + 1\<close>, which is read as \<open>2 ^ 53\<close>) is not modelled, and neither are
  numerals with a fraction or an exponent.
\<close>

fun parse_value :: "json \<Rightarrow> jsval" where
  "parse_value JNull = Null"
| "parse_value (JBool b) = Bool b"
| "parse_value (JNum n) = Num n"
| "parse_value (JStr s) = Str s"
| "parse_value (JArr js) = Arr (map parse_value js)"
| "parse_value (JObj ms) =
     Obj (foldl (\<lambda>obj (k, v). set_prop obj k v) [] (map (\<lambda>(k, j). (k, parse_value j)) ms))"

fun JSON_parse :: "payload \<Rightarrow> exn + jsval" where
  "JSON_parse (Doc j) = Inr (parse_value j)"
| "JSON_parse (NotJson s) = Inl SyntaxError"

text \<open>
  \<^verbatim>\<open>data.k\<close> on a parsed message, for the protocol's field names (\<^verbatim>\<open>clientid\<close>,
  \<^verbatim>\<open>callback\<close>, \<^verbatim>\<open>arguments\<close>, \<^verbatim>\<open>method\<close>, \<^verbatim>\<open>success\<close>, \<^verbatim>\<open>result\<close>,
  \<^verbatim>\<open>event\<close>, \<^verbatim>\<open>data\<close>), none of which a primitive, an array or
  \<^verbatim>\<open>Object.prototype\<close> has: reading a property of \<^verbatim>\<open>null\<close> or \<^verbatim>\<open>undefined\<close>
  throws a \<^verbatim>\<open>TypeError\<close> (\<open>None\<close>).
\<close>

fun field :: "jsval \<Rightarrow> string \<Rightarrow> jsval option" where
  "field Undefined k = None"
| "field Null k = None"
| "field v k = Some (read v k)"

text \<open>
  Spreading \<^verbatim>\<open>...data.arguments\<close> into a call: an array gives its elements, a
  string its characters; anything else is not iterable and throws a \<^verbatim>\<open>TypeError\<close>
  (\<open>None\<close>).
\<close>

fun spread :: "jsval \<Rightarrow> jsval list option" where
  "spread (Arr xs) = Some xs"
| "spread (Str s) = Some (map (\<lambda>c. Str [c]) s)"
| "spread _ = None"

text \<open>
  The \<^verbatim>\<open>TypeError\<close> a failed spread throws. Its message and stack are the
  engine's; the model fixes one text.
\<close>

definition not_iterable :: jsval where
  "not_iterable =
     Err (Str ''data.arguments is not iterable'')
         (Str ''TypeError: data.arguments is not iterable'') (Str ''TypeError'') []"

subsection \<open>Strings of values\<close>

definition digit :: "nat \<Rightarrow> char" where
  "digit d = ''0123456789'' ! d"

function digits :: "nat \<Rightarrow> string" where
  "digits n = (if n < 10 then [digit n] else digits (n div 10) @ [digit (n mod 10)])"
  by pat_completeness auto
termination
  by (relation "measure id") auto

declare digits.simps [simp del]

text \<open>
  \<^verbatim>\<open>String(n)\<close> of an integer-valued number: its decimal digits, for \<open>n\<close> of
  absolute value below \<open>10 ^ 21\<close>. From there JavaScript writes the exponent form
  (\<^verbatim>\<open>1e+21\<close>), which is not modelled: the ids, counts and names of the protocol
  are far below.
\<close>

definition Number_toString :: "int \<Rightarrow> string" where
  "Number_toString i = (if i < 0 then CHR ''-'' # digits (nat (- i)) else digits (nat i))"

fun join :: "string \<Rightarrow> string list \<Rightarrow> string" where
  "join sep [] = []"
| "join sep [s] = s"
| "join sep (s # t # ss) = s @ sep @ join sep (t # ss)"

text \<open>
  \<^verbatim>\<open>String(v)\<close>, as a template literal \<^verbatim>\<open>`${v}`\<close> and a property key apply it:
  \<^verbatim>\<open>Array.prototype.toString\<close> joins with commas and writes nothing for
  \<^verbatim>\<open>null\<close> and \<^verbatim>\<open>undefined\<close>, \<^verbatim>\<open>Error.prototype.toString\<close> joins name and
  message.
\<close>

function (sequential) ToString :: "jsval \<Rightarrow> string" where
  "ToString Undefined = ''undefined''"
| "ToString Null = ''null''"
| "ToString (Bool b) = (if b then ''true'' else ''false'')"
| "ToString (Num n) = Number_toString n"
| "ToString (Str s) = s"
| "ToString (Arr xs) =
     join '','' (map (\<lambda>x. if x = Undefined \<or> x = Null then [] else ToString x) xs)"
| "ToString (Obj ps) = ''[object Object]''"
| "ToString (Err m s n own) =
     (let name = read (Err m s n own) ''name'';
          msg = read (Err m s n own) ''message'';
          name' = (if name = Undefined then ''Error'' else ToString name);
          msg' = (if msg = Undefined then [] else ToString msg)
      in if name' = [] then msg' else if msg' = [] then name' else name' @ '': '' @ msg')"
  by pat_completeness auto
termination
proof (relation "measure size", goal_cases)
  case 1
  then show ?case by simp
next
  case (2 xs x)
  then show ?case by (simp add: less_Suc_eq_le size_list_estimation')
next
  case (3 m s n own name msg)
  then show ?case using size_read_Err [of m s n own "''name''"] by simp
next
  case (4 m s n own name msg name')
  then show ?case using size_read_Err [of m s n own "''message''"] by simp
qed

section \<open>Topics\<close>

text \<open>\<^verbatim>\<open>ns.split("/")\<close>: the segments between slashes, at least one.\<close>

fun split :: "char \<Rightarrow> string \<Rightarrow> string list" where
  "split c [] = [[]]"
| "split c (x # xs) =
     (if x = c then [] # split c xs
      else (case split c xs of [] \<Rightarrow> [[x]] | seg # rest \<Rightarrow> (x # seg) # rest))"

text \<open>
  One variable of an array destructuring \<^verbatim>\<open>const [, a, b, c, d] = ...\<close>: the
  element at that position, \<^verbatim>\<open>undefined\<close> (\<open>None\<close>) past the end.
\<close>

definition element :: "'a list \<Rightarrow> nat \<Rightarrow> 'a option" where
  "element xs i = (if i < length xs then Some (xs ! i) else None)"

text \<open>A destructured segment inside a template literal or as a map key.\<close>

definition segment_text :: "string option \<Rightarrow> string" where
  "segment_text seg = (case seg of None \<Rightarrow> ''undefined'' | Some s \<Rightarrow> s)"

definition call_topic :: "string \<Rightarrow> string \<Rightarrow> string" where
  "call_topic serverid fnname = ''/remotify/'' @ serverid @ ''/call/'' @ fnname"

definition callback_topic :: "string \<Rightarrow> string \<Rightarrow> string" where
  "callback_topic serverid clientid = ''/remotify/'' @ serverid @ ''/callback/'' @ clientid"

definition event_topic :: "string \<Rightarrow> string" where
  "event_topic ns = ''/remotifyEvent/'' @ ns"

section \<open>Listen\<close>

text \<open>
  A handler is called with the spread arguments and awaited: it returns a value, throws
  (or rejects with) a value, or never settles.
\<close>

datatype completion = Returns jsval | Throws jsval | Never

type_synonym handler = "jsval list \<Rightarrow> completion"

record Listen =
  serverid :: string
  fns :: "string \<rightharpoonup> handler"

definition new_Listen :: "string \<Rightarrow> Listen" where
  "new_Listen sid = \<lparr>serverid = sid, fns = Map.empty\<rparr>"

text \<open>
  What one run of \<open>onCall\<close> does besides returning: it returns at a topic check, or an
  exception escapes it (the rejection of the async function, which nothing handles), or
  it stays suspended at the \<^verbatim>\<open>await\<close> of a handler that never settles, or it
  publishes the reply.
\<close>

datatype effect = Ignored | Raised exn | Suspended | Published string payload

text \<open>The object literal \<^verbatim>\<open>{ method, callback, success, result }\<close>.\<close>

definition Callback :: "string \<Rightarrow> jsval \<Rightarrow> bool \<Rightarrow> jsval \<Rightarrow> jsval" where
  "Callback ns cb ok res =
     Obj [(''method'', Str ns), (''callback'', cb), (''success'', Bool ok), (''result'', res)]"

definition unknown_function :: "string option \<Rightarrow> string" where
  "unknown_function fnname = ''unknown function \"'' @ segment_text fnname @ ''\"''"

text \<open>
  \<^verbatim>\<open>
  private onCall = async (ns: string, str: string) => {
    const [, _remotify, _serverid, _call, fnname] = ns.split("/");
    if (_remotify !== "remotify") return;
    if (_serverid !== this.serverid) return;
    if (_call !== "call") return;
    const fn = this.fns.get(fnname);
    let callback: Callback;
    const data: Call = JSON.parse(str);
    if (!fn) {
      callback = { method: ns, callback: data.callback, success: false,
                   result: `unknown function "${fnname}"` };
    } else {
      try {
        callback = { method: ns, callback: data.callback, success: true,
                     result: await fn(...data.arguments) };
      } catch (result) {
        callback = { method: ns, callback: data.callback, success: false, result };
      }
    }
    const callbackPath = `/remotify/${this.serverid}/callback/${data.clientid}`;
    this.pubClient.publish(callbackPath, JSON.stringify(callback, this.config.jsonReplacer))
      .then(...debug only...).catch(...debug only...);
  };
  \<close>
  Both branches read \<^verbatim>\<open>data.callback\<close> before anything else: where \<open>data\<close> is
  \<^verbatim>\<open>null\<close> the first branch throws there, and the second throws inside \<^verbatim>\<open>try\<close>
  (before the handler is called) and again in \<^verbatim>\<open>catch\<close>, so a \<^verbatim>\<open>TypeError\<close>
  escapes either way. The failed spread of \<^verbatim>\<open>data.arguments\<close> is thrown inside
  \<^verbatim>\<open>try\<close> and becomes the reply's result. The listener is the one of the default
  configuration, whose replacer is \<open>jsonReplacer\<close>. The registry \<open>fns\<close> is not written.
\<close>

definition onCall :: "Listen \<Rightarrow> string \<Rightarrow> payload \<Rightarrow> Listen \<times> effect" where
  "onCall L ns str =
     (let segs = split CHR ''/'' ns;
          remotify' = element segs 1;
          serverid' = element segs 2;
          call' = element segs 3;
          fnname = element segs 4
      in if remotify' \<noteq> Some ''remotify'' then (L, Ignored)
         else if serverid' \<noteq> Some (serverid L) then (L, Ignored)
         else if call' \<noteq> Some ''call'' then (L, Ignored)
         else
           let fn = (case fnname of None \<Rightarrow> None | Some n \<Rightarrow> fns L n) in
           case JSON_parse str of
             Inl e \<Rightarrow> (L, Raised e)
           | Inr data \<Rightarrow>
               (case field data ''callback'' of
                  None \<Rightarrow> (L, Raised TypeError)
                | Some cb \<Rightarrow>
                    let callback =
                      (case fn of
                         None \<Rightarrow> Some (Callback ns cb False (Str (unknown_function fnname)))
                       | Some f \<Rightarrow>
                           (case (case spread (read data ''arguments'') of
                                    None \<Rightarrow> Throws not_iterable
                                  | Some args \<Rightarrow> f args) of
                              Returns v \<Rightarrow> Some (Callback ns cb True v)
                            | Throws res \<Rightarrow> Some (Callback ns cb False res)
                            | Never \<Rightarrow> None))
                    in case callback of
                         None \<Rightarrow> (L, Suspended)
                       | Some c \<Rightarrow>
                           (L, Published
                                 (callback_topic (serverid L) (ToString (read data ''clientid'')))
                                 (JSON_stringify JsonReplacer c))))"

text \<open>
  \<^verbatim>\<open>
  public listen(fn: (...args: any[]) => any, fnname = fn.name) {
    this.subClient.subscribe(`/remotify/${this.serverid}/call/${fnname}`);
    this.fns.set(fnname, fn);
  }
  \<close>
  The result is the new listener and the topic subscribed to.
\<close>

definition listen :: "Listen \<Rightarrow> handler \<Rightarrow> string \<Rightarrow> Listen \<times> string" where
  "listen L fn fnname = (L\<lparr>fns := (fns L)(fnname \<mapsto> fn)\<rparr>, call_topic (serverid L) fnname)"

section \<open>Remotify\<close>

subsection \<open>Promises\<close>

text \<open>
  A promise is pending, fulfilled with a value or rejected with one. Settling a settled
  promise does nothing.
\<close>

datatype 'a promise = Pending | Fulfilled 'a | Rejected jsval

definition settle :: "'a promise \<Rightarrow> 'a promise \<Rightarrow> 'a promise" where
  "settle p q = (if p = Pending then q else p)"

text \<open>
  What the race is fulfilled with: the symbol \<^verbatim>\<open>timedout\<close>, or the pair of
  \<^verbatim>\<open>Promise.all\<close>, of which the code reads element 1.
\<close>

datatype raced = timedout | results jsval

text \<open>
  The frame of one invocation of the function that \<^verbatim>\<open>remotify(fnname)\<close> returns:
  its variables and the promises it builds.
  \<^item> \<open>promise\<close> is the promise of \<open>addCallback\<close>, settled through the registry entry;
  \<^item> \<open>isDown\<close> is settled from the outcome of the publish;
  \<^item> \<open>Promise_all\<close> is \<^verbatim>\<open>Promise.all([isDown, promise])\<close>;
  \<^item> \<open>sleep\<close> is true once \<^verbatim>\<open>sleep(this.config.callbackTimeout)\<close> has resolved;
  \<^item> \<open>Promise_race\<close> is the awaited \<^verbatim>\<open>Promise.race([...])\<close>;
  \<^item> \<open>returned\<close> is the promise the async function returned to its caller.
\<close>

record frame =
  fnname :: string
  args :: "jsval list"
  cb_id :: nat
  isDown :: "unit promise"
  promise :: "jsval promise"
  Promise_all :: "jsval promise"
  sleep :: bool
  Promise_race :: "raced promise"
  returned :: "jsval promise"

text \<open>
  \<^verbatim>\<open>Promise.all\<close> rejects with the first rejection of its inputs and is fulfilled
  once both are; \<^verbatim>\<open>Promise.race\<close> settles as the first of its inputs to settle. The
  reactions run after every event that settles an input, so at most one input is new.
\<close>

definition Promise_all_react :: "frame \<Rightarrow> frame" where
  "Promise_all_react f =
     f\<lparr>Promise_all := settle (Promise_all f)
          (case (isDown f, promise f) of
             (Rejected e, _) \<Rightarrow> Rejected e
           | (_, Rejected e) \<Rightarrow> Rejected e
           | (Fulfilled _, Fulfilled v) \<Rightarrow> Fulfilled v
           | _ \<Rightarrow> Pending)\<rparr>"

definition Promise_race_react :: "frame \<Rightarrow> frame" where
  "Promise_race_react f =
     f\<lparr>Promise_race := settle (Promise_race f)
          (case Promise_all f of
             Rejected e \<Rightarrow> Rejected e
           | Fulfilled v \<Rightarrow> Fulfilled (results v)
           | Pending \<Rightarrow> if sleep f then Fulfilled timedout else Pending)\<rparr>"

subsection \<open>The caller's state\<close>

text \<open>
  \<^verbatim>\<open>
  function defaultConfig() {
    return { clientid: "unnamed", callbackTimeout: 60 * 1000 };
  }
  \<close>
\<close>

text \<open>
  \<open>Config\<close> is \<^verbatim>\<open>this.config\<close> as the constructor leaves it: \<^verbatim>\<open>clientid\<close> is
  a string, the result of a concatenation; \<^verbatim>\<open>callbackTimeout\<close> is a number of
  milliseconds or \<^verbatim>\<open>undefined\<close> (\<open>None\<close>).
\<close>

record Config =
  clientid :: string
  callbackTimeout :: "nat option"

definition defaultConfig :: Config where
  "defaultConfig = \<lparr>clientid = ''unnamed'', callbackTimeout = Some (60 * 1000)\<rparr>"

text \<open>
  \<open>callbacks\<close> is the registry \<^verbatim>\<open>Map<number, {resolve, reject}>\<close>. An entry's two
  closures differ only in the promise they settle, so the entry is the index of the
  frame that holds that promise; the id they delete is the key they are stored under.
  \<open>frames\<close> are the invocations made so far, in order.
\<close>

record Remotify =
  serverid :: string
  config :: Config
  cbCounter :: nat
  callbacks :: "nat \<rightharpoonup> nat"
  frames :: "frame list"

text \<open>
  The constructor:
  \<^verbatim>\<open>
  this.config = { ...defaultConfig(), ...config };
  this.config.clientid = this.config.clientid + "_" + randomid();
  this.subClient.subscribe(`/remotify/${this.serverid}/callback/${this.config.clientid}`);
  \<close>
  The argument \<^verbatim>\<open>config\<close> is a \<^verbatim>\<open>Partial<Config>\<close>. Of each of its two keys the
  model keeps whether the object has it, and with which value: \<open>None\<close> where the
  key is absent, so that the default stays; \<open>Some None\<close> where the key is there with
  the value \<^verbatim>\<open>undefined\<close>, which the spread copies over the default (the client id
  then starts with \<^verbatim>\<open>undefined_\<close>); \<open>Some (Some x)\<close> where it is there with the
  value \<open>x\<close>. \<open>suffix\<close> is what \<^verbatim>\<open>randomid()\<close> returned: the hex text of ten
  random bytes. The result is the new caller and the topic subscribed to.
\<close>

definition new_Remotify ::
  "string \<Rightarrow> string option option \<Rightarrow> nat option option \<Rightarrow> string \<Rightarrow> Remotify \<times> string" where
  "new_Remotify sid clientid' callbackTimeout' suffix =
     (let cfg = \<lparr>clientid = (case clientid' of None \<Rightarrow> clientid defaultConfig
                              | Some None \<Rightarrow> ''undefined''
                              | Some (Some c) \<Rightarrow> c),
                 callbackTimeout = (case callbackTimeout' of None \<Rightarrow> callbackTimeout defaultConfig
                                    | Some t \<Rightarrow> t)\<rparr>;
          cfg' = cfg\<lparr>clientid := clientid cfg @ ''_'' @ suffix\<rparr>
      in (\<lparr>serverid = sid, config = cfg', cbCounter = 0, callbacks = Map.empty, frames = []\<rparr>,
          callback_topic sid (clientid cfg')))"

text \<open>
  \<^verbatim>\<open>++this.cbCounter\<close> on a JavaScript number, which is a double: from 0 every
  value up to \<open>2 ^ 53\<close> is exact, and \<open>2 ^ 53 + 1\<close> rounds back to \<open>2 ^ 53\<close>.
\<close>

definition increment :: "nat \<Rightarrow> nat" where
  "increment n = (if n < 2 ^ 53 then n + 1 else n)"

text \<open>
  \<^verbatim>\<open>
  private addCallback<T>() {
    const id = ++this.cbCounter;
    return { id, promise: new Promise<T>((resolve, reject) => {
      this.callbacks.set(id, {
        resolve: (result: any) => { this.callbacks.delete(id); resolve(result); },
        reject: (result: any) => { this.callbacks.delete(id); reject(result); },
      });
    }) };
  }
  \<close>
  The result is the new caller, the id, and the index of the frame that will hold the
  new promise: the one \<open>remotify\<close> appends next.
\<close>

definition addCallback :: "Remotify \<Rightarrow> Remotify \<times> nat \<times> nat" where
  "addCallback R =
     (let i = increment (cbCounter R);
          c = length (frames R)
      in (R\<lparr>cbCounter := i, callbacks := (callbacks R)(i \<mapsto> c)\<rparr>, i, c))"

text \<open>The rejection of a call that timed out.\<close>

definition Timeout :: "frame \<Rightarrow> jsval" where
  "Timeout f =
     Obj [(''cause'', Str ''timeout''), (''fnname'', Str (fnname f)), (''args'', Arr (args f)),
          (''message'', Str ''Timeout'')]"

text \<open>
  The code after \<^verbatim>\<open>await Promise.race(...)\<close>, run once the race has settled:
  \<^verbatim>\<open>
  if (result === timedout) {
    const cb = this.callbacks.get(id);
    if (cb) { this.callbacks.delete(id); }
    return Promise.reject({ cause: "timeout", fnname, args, message: "Timeout" });
  } else {
    return (result as any)[1];
  }
  \<close>
  A rejected race makes the \<^verbatim>\<open>await\<close> throw, and the async function rejects with
  what was thrown.
\<close>

definition resume :: "Remotify \<Rightarrow> nat \<Rightarrow> Remotify" where
  "resume R c =
     (let f = frames R ! c in
      case Promise_race f of
        Pending \<Rightarrow> R
      | Rejected e \<Rightarrow> R\<lparr>frames := (frames R)[c := f\<lparr>returned := Rejected e\<rparr>]\<rparr>
      | Fulfilled timedout \<Rightarrow>
          (let R' = (case callbacks R (cb_id f) of
                       Some cb \<Rightarrow> R\<lparr>callbacks := (callbacks R)(cb_id f := None)\<rparr>
                     | None \<Rightarrow> R)
           in R'\<lparr>frames := (frames R')[c := f\<lparr>returned := Rejected (Timeout f)\<rparr>]\<rparr>)
      | Fulfilled (results v) \<Rightarrow> R\<lparr>frames := (frames R)[c := f\<lparr>returned := Fulfilled v\<rparr>]\<rparr>)"

text \<open>
  The reactions of frame \<open>c\<close> after one of its promises was settled: \<^verbatim>\<open>Promise.all\<close>,
  then \<^verbatim>\<open>Promise.race\<close>, then, if the race has just settled, the rest of the function.
\<close>

definition react :: "Remotify \<Rightarrow> nat \<Rightarrow> Remotify" where
  "react R c =
     (if c < length (frames R) then
        let f = frames R ! c;
            f' = Promise_race_react (Promise_all_react f);
            R' = R\<lparr>frames := (frames R)[c := f']\<rparr>
        in if Promise_race f = Pending \<and> Promise_race f' \<noteq> Pending then resume R' c else R'
      else R)"

text \<open>
  The two closures of a registry entry, \<open>i\<close> being the key and \<open>c\<close> the entry:
  \<^verbatim>\<open>this.callbacks.delete(id); resolve(result)\<close> and the same with \<^verbatim>\<open>reject\<close>.
\<close>

definition settle_promise :: "Remotify \<Rightarrow> nat \<Rightarrow> jsval promise \<Rightarrow> Remotify" where
  "settle_promise R c p =
     (if c < length (frames R) then
        react (R\<lparr>frames := (frames R)[c := (frames R ! c)\<lparr>promise := settle (promise (frames R ! c)) p\<rparr>]\<rparr>) c
      else R)"

definition cb_resolve :: "Remotify \<Rightarrow> nat \<Rightarrow> nat \<Rightarrow> jsval \<Rightarrow> Remotify" where
  "cb_resolve R i c res = settle_promise (R\<lparr>callbacks := (callbacks R)(i := None)\<rparr>) c (Fulfilled res)"

definition cb_reject :: "Remotify \<Rightarrow> nat \<Rightarrow> nat \<Rightarrow> jsval \<Rightarrow> Remotify" where
  "cb_reject R i c res = settle_promise (R\<lparr>callbacks := (callbacks R)(i := None)\<rparr>) c (Rejected res)"

text \<open>
  \<^verbatim>\<open>this.callbacks.get(key)\<close>: the keys stored are numbers, and a key of another
  type equals none of them.
\<close>

definition callbacks_get :: "Remotify \<Rightarrow> jsval \<Rightarrow> (nat \<times> nat) option" where
  "callbacks_get R key =
     (case key of
        Num n \<Rightarrow> (if 0 \<le> n then map_option (Pair (nat n)) (callbacks R (nat n)) else None)
      | _ \<Rightarrow> None)"

text \<open>
  \<^verbatim>\<open>
  private onCallback = (ns: string, str: string) => {
    const [, _remotify, _ns, _callback, ,] = ns.split("/");
    if (_remotify !== "remotify") return;
    if (_ns !== this.serverid) return;
    if (_callback !== "callback") return;
    const data: Callback = JSON.parse(str);
    const cb = this.callbacks.get(data.callback);
    if (cb) {
      (data.success ? cb.resolve : cb.reject)(data.result);
    } else {
      debug("can't find callback for %s %s", data.method, data.callback);
    }
  };
  \<close>
  The result is the new caller and the exception that escaped, if one did.
\<close>

definition onCallback :: "Remotify \<Rightarrow> string \<Rightarrow> payload \<Rightarrow> Remotify \<times> exn option" where
  "onCallback R ns str =
     (let segs = split CHR ''/'' ns;
          remotify' = element segs 1;
          ns' = element segs 2;
          callback' = element segs 3
      in if remotify' \<noteq> Some ''remotify'' then (R, None)
         else if ns' \<noteq> Some (serverid R) then (R, None)
         else if callback' \<noteq> Some ''callback'' then (R, None)
         else
           case JSON_parse str of
             Inl e \<Rightarrow> (R, Some e)
           | Inr data \<Rightarrow>
               (case field data ''callback'' of
                  None \<Rightarrow> (R, Some TypeError)
                | Some key \<Rightarrow>
                    (case callbacks_get R key of
                       Some (i, c) \<Rightarrow>
                         ((if truthy (read data ''success'') then cb_resolve else cb_reject)
                            R i c (read data ''result''), None)
                     | None \<Rightarrow> (R, None))))"

text \<open>The error of a publish that no subscriber received.\<close>

definition backend_down :: "string \<Rightarrow> jsval" where
  "backend_down sid =
     (case new_Error (sid @ '' backend is down or method does not exist'') of
        Err m s n own \<Rightarrow> Err m s n (set_prop own ''cause'' (Str ''remotifyBackendDown''))
      | e \<Rightarrow> e)"

text \<open>
  The synchronous part of an invocation of \<^verbatim>\<open>remotify(fnname)\<close> with \<open>args\<close>:
  \<^verbatim>\<open>
  const { id, promise } = this.addCallback<T>();
  const data: Call = { clientid: this.config.clientid, callback: id, arguments: args };
  const isDown = new Promise((res, rej) =>
    this.pubClient.publish(`/remotify/${this.serverid}/call/${fnname}`, JSON.stringify(data))
      .then(...).catch(rej));
  const result = await Promise.race([
    Promise.all([isDown, promise]),
    sleep(this.config.callbackTimeout).then(() => timedout) ]);
  \<close>
  The result is the new caller, the index of the new frame, and the topic and text
  given to \<^verbatim>\<open>publish\<close>. Everything after it happens in later events.
\<close>

definition remotify :: "Remotify \<Rightarrow> string \<Rightarrow> jsval list \<Rightarrow> Remotify \<times> nat \<times> string \<times> payload" where
  "remotify R fnname' args' =
     (case addCallback R of
        (R1, i, c) \<Rightarrow>
          let data = Obj [(''clientid'', Str (clientid (config R1))), (''callback'', Num (int i)),
                          (''arguments'', Arr args')];
              f = \<lparr>fnname = fnname', args = args', cb_id = i, isDown = Pending,
                   promise = Pending, Promise_all = Pending, sleep = False,
                   Promise_race = Pending, returned = Pending\<rparr>
          in (R1\<lparr>frames := frames R1 @ [f]\<rparr>, c,
              call_topic (serverid R1) fnname', JSON_stringify NoReplacer data))"

text \<open>
  The events that settle the promises of frame \<open>c\<close>.
  \<^item> The publish resolved with \<open>listenedCount\<close>:
    \<^verbatim>\<open>
    .then((listenedCount) => {
      if (listenedCount === 0) {
        const error = new Error(this.serverid + " backend is down or method does not exist");
        (error as any).cause = "remotifyBackendDown";
        rej(error);
      } else { return res(void 0); }
    })
    \<close>
  \<^item> The publish rejected with \<open>err\<close>: \<^verbatim>\<open>.catch(rej)\<close>.
  \<^item> The timer of \<^verbatim>\<open>sleep\<close> fired.
\<close>

definition settle_isDown :: "Remotify \<Rightarrow> nat \<Rightarrow> unit promise \<Rightarrow> Remotify" where
  "settle_isDown R c p =
     (if c < length (frames R) then
        react (R\<lparr>frames := (frames R)[c := (frames R ! c)\<lparr>isDown := settle (isDown (frames R ! c)) p\<rparr>]\<rparr>) c
      else R)"

definition publish_then :: "Remotify \<Rightarrow> nat \<Rightarrow> nat \<Rightarrow> Remotify" where
  "publish_then R c listenedCount =
     (if listenedCount = 0 then settle_isDown R c (Rejected (backend_down (serverid R)))
      else settle_isDown R c (Fulfilled ()))"

definition publish_catch :: "Remotify \<Rightarrow> nat \<Rightarrow> jsval \<Rightarrow> Remotify" where
  "publish_catch R c err = settle_isDown R c (Rejected err)"

text \<open>
  Modelled from the spec: \<^verbatim>\<open>sleep\<close> is imported from \<^verbatim>\<open>./util\<close>, which is not
  among the sources. By section 4.2 of the specification it is a timer of the
  configured duration; its promise is fulfilled when the timer expires, and
  \<^verbatim>\<open>.then(() => timedout)\<close> turns that into the symbol. Time itself is not modelled:
  the timer is one more event, which comes before or after the others.
\<close>

definition sleep_then :: "Remotify \<Rightarrow> nat \<Rightarrow> Remotify" where
  "sleep_then R c =
     (if c < length (frames R) then
        react (R\<lparr>frames := (frames R)[c := (frames R ! c)\<lparr>sleep := True\<rparr>]\<rparr>) c
      else R)"

text \<open>
  Everything that can happen to a caller, one event at a time: an invocation, the
  outcome of a publish, a message on the subscriber connection, a timer.
\<close>

datatype event =
    Invoke string "jsval list"
  | PublishResolved nat nat
  | PublishRejected nat jsval
  | Message string payload
  | TimerFired nat

fun step :: "Remotify \<Rightarrow> event \<Rightarrow> Remotify" where
  "step R (Invoke n a) = fst (remotify R n a)"
| "step R (PublishResolved c k) = publish_then R c k"
| "step R (PublishRejected c err) = publish_catch R c err"
| "step R (Message ns str) = fst (onCallback R ns str)"
| "step R (TimerFired c) = sleep_then R c"

definition run :: "Remotify \<Rightarrow> event list \<Rightarrow> Remotify" where
  "run R es = foldl step R es"

section \<open>Events\<close>

text \<open>
  \<^verbatim>\<open>
  onEvent = (ns: string, dataStr: string) => {
    const [, _remotifyEvent, _ns] = ns.split("/");
    if (_remotifyEvent !== "remotifyEvent") return;
    if (_ns !== this.ns) return;
    const { event, data } = JSON.parse(dataStr);
    if (!(event in this.listener)) { debug("unknown event", event); }
    else { this.listener[event](data); }
  };
  \<close>
  \<open>listener\<close> maps the names that are \<^verbatim>\<open>in\<close> the listener object, its own and the
  ones it inherits (a plain object inherits \<^verbatim>\<open>constructor\<close>, \<^verbatim>\<open>toString\<close> and the
  other names of \<^verbatim>\<open>Object.prototype\<close>), to whether the value read under the name
  can be called. Calling a value that is not a function throws a \<^verbatim>\<open>TypeError\<close>.
  What the function called does, an exception it throws included, is not part of
  \<open>onEvent\<close>. The subscriber has no state that \<open>onEvent\<close> writes.
\<close>

datatype member = Function | NotFunction

record RedisEventSubscriber =
  ns :: string
  listener :: "string \<rightharpoonup> member"

datatype event_effect = EventIgnored | EventRaised exn | EventUnknown | EventCalled string jsval

definition onEvent :: "RedisEventSubscriber \<Rightarrow> string \<Rightarrow> payload \<Rightarrow> event_effect" where
  "onEvent S topic dataStr =
     (let segs = split CHR ''/'' topic;
          remotifyEvent' = element segs 1;
          ns' = element segs 2
      in if remotifyEvent' \<noteq> Some ''remotifyEvent'' then EventIgnored
         else if ns' \<noteq> Some (ns S) then EventIgnored
         else
           case JSON_parse dataStr of
             Inl e \<Rightarrow> EventRaised e
           | Inr d \<Rightarrow>
               (case field d ''event'' of
                  None \<Rightarrow> EventRaised TypeError
                | Some event \<Rightarrow>
                    (case listener S (ToString event) of
                       None \<Rightarrow> EventUnknown
                     | Some NotFunction \<Rightarrow> EventRaised TypeError
                     | Some Function \<Rightarrow> EventCalled (ToString event) (read d ''data''))))"

section \<open>The state of a call\<close>

text \<open>
  A call is still racing while nothing has settled its race: the timer has not fired,
  neither input of \<^verbatim>\<open>Promise.all\<close> is rejected, and at most one of them is
  fulfilled. Every frame of a caller is racing or has settled for good
  (\<open>consistent\<close>); \<open>step_consistent\<close> below shows that the events keep it so.
\<close>

fun is_rejected :: "'a promise \<Rightarrow> bool" where
  "is_rejected (Rejected e) = True"
| "is_rejected _ = False"

definition racing :: "frame \<Rightarrow> bool" where
  "racing f \<longleftrightarrow>
     Promise_race f = Pending \<and> Promise_all f = Pending \<and> \<not> sleep f \<and> returned f = Pending \<and>
     \<not> is_rejected (isDown f) \<and> \<not> is_rejected (promise f) \<and>
     (isDown f = Pending \<or> promise f = Pending)"

definition consistent :: "frame \<Rightarrow> bool" where
  "consistent f \<longleftrightarrow> racing f \<or> (Promise_race f \<noteq> Pending \<and> returned f \<noteq> Pending)"

text \<open>
  What \<open>react\<close> does to the frame it runs on: the two reactions, and the rest of the
  function if the race was pending before.
\<close>

definition outcome :: "frame \<Rightarrow> jsval promise" where
  "outcome f =
     (case Promise_race f of
        Pending \<Rightarrow> returned f
      | Rejected e \<Rightarrow> Rejected e
      | Fulfilled timedout \<Rightarrow> Rejected (Timeout f)
      | Fulfilled (results v) \<Rightarrow> Fulfilled v)"

definition advance :: "frame \<Rightarrow> frame" where
  "advance f =
     (let f' = Promise_race_react (Promise_all_react f)
      in if Promise_race f = Pending then f'\<lparr>returned := outcome f'\<rparr> else f')"

lemma Timeout_simps [simp]:
  "Timeout (f\<lparr>returned := x\<rparr>) = Timeout f"
  "Timeout (f\<lparr>Promise_race := y\<rparr>) = Timeout f"
  "Timeout (f\<lparr>Promise_all := z\<rparr>) = Timeout f"
  "Timeout (f\<lparr>isDown := d\<rparr>) = Timeout f"
  "Timeout (f\<lparr>promise := p\<rparr>) = Timeout f"
  "Timeout (f\<lparr>sleep := b\<rparr>) = Timeout f"
  by (simp_all add: Timeout_def)

lemma resume_frames:
  "c < length (frames R) \<Longrightarrow>
     frames (resume R c) = (frames R)[c := (frames R ! c)\<lparr>returned := outcome (frames R ! c)\<rparr>]"
  by (cases "Promise_race (frames R ! c)")
     (auto simp: resume_def outcome_def Let_def split: raced.splits option.splits)

lemma resume_callbacks:
  "callbacks (resume R c) =
     (if Promise_race (frames R ! c) = Fulfilled timedout
      then (callbacks R)(cb_id (frames R ! c) := None) else callbacks R)"
  by (cases "Promise_race (frames R ! c)")
     (auto simp: resume_def Let_def fun_upd_idem_iff split: raced.splits option.splits)

lemma resume_rest [simp]:
  "serverid (resume R c) = serverid R" "config (resume R c) = config R"
  "cbCounter (resume R c) = cbCounter R"
  by (cases "Promise_race (frames R ! c)";
      simp add: resume_def Let_def split: raced.splits option.splits)+

lemma react_frames:
  "c < length (frames R) \<Longrightarrow> frames (react R c) = (frames R)[c := advance (frames R ! c)]"
  by (simp add: react_def Let_def resume_frames advance_def outcome_def)

lemma react_callbacks:
  "callbacks (react R c) =
     (if c < length (frames R) \<and> Promise_race (frames R ! c) = Pending \<and>
         Promise_race (advance (frames R ! c)) = Fulfilled timedout
      then (callbacks R)(cb_id (frames R ! c) := None) else callbacks R)"
  by (simp add: react_def Let_def resume_callbacks advance_def Promise_race_react_def
        Promise_all_react_def)

lemma react_rest [simp]:
  "serverid (react R c) = serverid R" "config (react R c) = config R"
  "cbCounter (react R c) = cbCounter R" "length (frames (react R c)) = length (frames R)"
  by (simp_all add: react_def Let_def resume_frames)

lemma settle_isDown_frames:
  "c < length (frames R) \<Longrightarrow>
     frames (settle_isDown R c p) =
       (frames R)[c := advance ((frames R ! c)\<lparr>isDown := settle (isDown (frames R ! c)) p\<rparr>)]"
  by (simp add: settle_isDown_def react_frames)

lemma settle_promise_frames:
  "c < length (frames R) \<Longrightarrow>
     frames (settle_promise R c p) =
       (frames R)[c := advance ((frames R ! c)\<lparr>promise := settle (promise (frames R ! c)) p\<rparr>)]"
  by (simp add: settle_promise_def react_frames)

lemma sleep_then_frames:
  "c < length (frames R) \<Longrightarrow>
     frames (sleep_then R c) = (frames R)[c := advance ((frames R ! c)\<lparr>sleep := True\<rparr>)]"
  by (simp add: sleep_then_def react_frames)

lemma backend_down_eq:
  "backend_down sid =
     Err (Str (sid @ '' backend is down or method does not exist''))
         (Str (''Error: '' @ sid @ '' backend is down or method does not exist''))
         (Str ''Error'') [(''cause'', Str ''remotifyBackendDown'')]"
  by (simp add: backend_down_def new_Error_def)

subsection \<open>A fresh invocation\<close>

lemma remotify_index: "fst (snd (remotify R n a)) = length (frames R)"
  by (simp add: remotify_def addCallback_def Let_def)

lemma remotify_frames:
  "frames (fst (remotify R n a)) =
     frames R @ [\<lparr>fnname = n, args = a, cb_id = increment (cbCounter R), isDown = Pending,
                  promise = Pending, Promise_all = Pending, sleep = False,
                  Promise_race = Pending, returned = Pending\<rparr>]"
  by (simp add: remotify_def addCallback_def Let_def)

lemma remotify_callbacks:
  "callbacks (fst (remotify R n a)) =
     (callbacks R)(increment (cbCounter R) \<mapsto> length (frames R))"
  by (simp add: remotify_def addCallback_def Let_def)

lemma remotify_rest [simp]:
  "serverid (fst (remotify R n a)) = serverid R" "config (fst (remotify R n a)) = config R"
  "cbCounter (fst (remotify R n a)) = increment (cbCounter R)"
  by (simp_all add: remotify_def addCallback_def Let_def)

lemma remotify_racing:
  "racing (frames (fst (remotify R n a)) ! length (frames R))"
  by (simp add: remotify_frames racing_def)

subsection \<open>A caller and a listener to run the model on\<close>

definition demo_caller :: Remotify where
  "demo_caller = fst (new_Remotify ''backend'' None None ''0a1b2c3d4e5f60718293'')"

definition demo_call :: Remotify where
  "demo_call = fst (remotify demo_caller ''Squarer.square'' [Num 3])"

lemma demo_caller_simps [simp]:
  "serverid demo_caller = ''backend''"
  "clientid (config demo_caller) = ''unnamed_0a1b2c3d4e5f60718293''"
  "cbCounter demo_caller = 0" "callbacks demo_caller = Map.empty" "frames demo_caller = []"
  by (simp_all add: demo_caller_def new_Remotify_def defaultConfig_def Let_def)

lemma increment_0 [simp]: "increment 0 = 1"
  by (simp add: increment_def)

lemma demo_call_simps [simp]:
  "serverid demo_call = ''backend''"
  "clientid (config demo_call) = ''unnamed_0a1b2c3d4e5f60718293''"
  "cbCounter demo_call = 1" "callbacks demo_call = [1 \<mapsto> 0]"
  "frames demo_call =
     [\<lparr>fnname = ''Squarer.square'', args = [Num 3], cb_id = 1, isDown = Pending,
       promise = Pending, Promise_all = Pending, sleep = False,
       Promise_race = Pending, returned = Pending\<rparr>]"
  by (simp_all add: demo_call_def remotify_frames remotify_callbacks)

section \<open>Events keep frames consistent\<close>

text \<open>
  An event other than an invocation touches at most one frame: it settles one of the
  frame's inputs, or marks its timer as fired, and the reactions run (\<open>quiet\<close>). It
  adds nothing to the registry and leaves the counter alone.
\<close>

definition touched :: "frame \<Rightarrow> frame \<Rightarrow> bool" where
  "touched f f' \<longleftrightarrow>
     (\<exists>p. f' = f\<lparr>isDown := settle (isDown f) p\<rparr>) \<or>
     (\<exists>p. f' = f\<lparr>promise := settle (promise f) p\<rparr>) \<or>
     f' = f\<lparr>sleep := True\<rparr>"

lemma advance_consistent:
  assumes "consistent f" and "touched f f'"
  shows "consistent (advance f')"
  using assms
  by (auto simp: consistent_def racing_def touched_def advance_def outcome_def
        Promise_race_react_def Promise_all_react_def settle_def
        split: promise.splits raced.splits if_splits)

lemma advance_final:
  assumes "Promise_race f \<noteq> Pending" and "touched f f'"
  shows "returned (advance f') = returned f \<and> Promise_race (advance f') = Promise_race f"
  using assms
  by (auto simp: touched_def advance_def Promise_race_react_def Promise_all_react_def settle_def)

lemma advance_cb_id:
  "touched f f' \<Longrightarrow> cb_id (advance f') = cb_id f \<and> fnname (advance f') = fnname f \<and> args (advance f') = args f"
  by (auto simp: touched_def advance_def Promise_race_react_def Promise_all_react_def Let_def)


definition quiet :: "Remotify \<Rightarrow> Remotify \<Rightarrow> bool" where
  "quiet R R' \<longleftrightarrow>
     serverid R' = serverid R \<and> config R' = config R \<and> cbCounter R' = cbCounter R \<and>
     (\<forall>i. callbacks R' i = callbacks R i \<or> callbacks R' i = None) \<and>
     (frames R' = frames R \<or>
      (\<exists>c f'. c < length (frames R) \<and> touched (frames R ! c) f' \<and>
               frames R' = (frames R)[c := advance f']))"

lemma quiet_refl [simp]: "quiet R R"
  by (simp add: quiet_def)

lemma settle_isDown_rest [simp]:
  "serverid (settle_isDown R c p) = serverid R" "config (settle_isDown R c p) = config R"
  "cbCounter (settle_isDown R c p) = cbCounter R"
  by (simp_all add: settle_isDown_def)

lemma settle_promise_rest [simp]:
  "serverid (settle_promise R c p) = serverid R" "config (settle_promise R c p) = config R"
  "cbCounter (settle_promise R c p) = cbCounter R"
  by (simp_all add: settle_promise_def)

lemma sleep_then_rest [simp]:
  "serverid (sleep_then R c) = serverid R" "config (sleep_then R c) = config R"
  "cbCounter (sleep_then R c) = cbCounter R"
  by (simp_all add: sleep_then_def)

lemma settle_isDown_callbacks:
  "callbacks (settle_isDown R c p) i = callbacks R i \<or> callbacks (settle_isDown R c p) i = None"
  by (simp add: settle_isDown_def react_callbacks)

lemma settle_promise_callbacks:
  "callbacks (settle_promise R c p) i = callbacks R i \<or> callbacks (settle_promise R c p) i = None"
  by (simp add: settle_promise_def react_callbacks)

lemma sleep_then_callbacks:
  "callbacks (sleep_then R c) i = callbacks R i \<or> callbacks (sleep_then R c) i = None"
  by (simp add: sleep_then_def react_callbacks)

lemma quiet_settle_isDown: "quiet R (settle_isDown R c p)"
proof (cases "c < length (frames R)")
  case True
  have "touched (frames R ! c) ((frames R ! c)\<lparr>isDown := settle (isDown (frames R ! c)) p\<rparr>)"
    by (auto simp: touched_def)
  with True show ?thesis
    using settle_isDown_callbacks [of R c p]
    unfolding quiet_def by (auto simp: settle_isDown_frames)
next
  case False
  then show ?thesis by (simp add: settle_isDown_def)
qed

lemma quiet_settle_promise: "quiet R (settle_promise R c p)"
proof (cases "c < length (frames R)")
  case True
  have "touched (frames R ! c) ((frames R ! c)\<lparr>promise := settle (promise (frames R ! c)) p\<rparr>)"
    by (auto simp: touched_def)
  with True show ?thesis
    using settle_promise_callbacks [of R c p]
    unfolding quiet_def by (auto simp: settle_promise_frames)
next
  case False
  then show ?thesis by (simp add: settle_promise_def)
qed

lemma quiet_sleep_then: "quiet R (sleep_then R c)"
proof (cases "c < length (frames R)")
  case True
  have "touched (frames R ! c) ((frames R ! c)\<lparr>sleep := True\<rparr>)"
    by (auto simp: touched_def)
  with True show ?thesis
    using sleep_then_callbacks [of R c]
    unfolding quiet_def by (auto simp: sleep_then_frames)
next
  case False
  then show ?thesis by (simp add: sleep_then_def)
qed

lemma quiet_delete:
  assumes "quiet (R\<lparr>callbacks := (callbacks R)(i := None)\<rparr>) R'"
  shows "quiet R R'"
proof -
  have "callbacks R' j = callbacks R j \<or> callbacks R' j = None" for j
    using assms unfolding quiet_def
    by (cases "j = i") (auto split: if_splits dest: spec [of _ j])
  with assms show ?thesis unfolding quiet_def by simp
qed

lemma quiet_cb_resolve: "quiet R (cb_resolve R i c v)"
  unfolding cb_resolve_def by (rule quiet_delete [OF quiet_settle_promise])

lemma quiet_cb_reject: "quiet R (cb_reject R i c v)"
  unfolding cb_reject_def by (rule quiet_delete [OF quiet_settle_promise])

lemma quiet_onCallback: "quiet R (fst (onCallback R t str))"
  by (auto simp: onCallback_def Let_def quiet_cb_resolve quiet_cb_reject
        split: sum.splits option.splits)

lemma quiet_publish_then: "quiet R (publish_then R c k)"
  by (simp add: publish_then_def quiet_settle_isDown)

lemma quiet_publish_catch: "quiet R (publish_catch R c e)"
  by (simp add: publish_catch_def quiet_settle_isDown)

fun is_Invoke :: "event \<Rightarrow> bool" where
  "is_Invoke (Invoke n a) = True"
| "is_Invoke _ = False"

lemma quiet_step: "\<not> is_Invoke e \<Longrightarrow> quiet R (step R e)"
  by (cases e) (simp_all add: quiet_publish_then quiet_publish_catch quiet_onCallback quiet_sleep_then)

lemma quiet_consistent:
  assumes "quiet R R'" and "list_all consistent (frames R)"
  shows "list_all consistent (frames R')"
proof -
  from assms(1) consider "frames R' = frames R"
    | c f' where "c < length (frames R)" "touched (frames R ! c) f'"
        "frames R' = (frames R)[c := advance f']"
    unfolding quiet_def by blast
  then show ?thesis
  proof cases
    case 1
    with assms(2) show ?thesis by simp
  next
    case 2
    from assms(2) 2(1) have "consistent (frames R ! c)"
      by (simp add: list_all_length)
    from advance_consistent [OF this 2(2)] assms(2) 2(1) show ?thesis
      unfolding 2(3) list_all_length by (auto simp: nth_list_update)
  qed
qed

lemma step_consistent:
  assumes "list_all consistent (frames R)"
  shows "list_all consistent (frames (step R e))"
proof (cases "is_Invoke e")
  case True
  then obtain n a where "e = Invoke n a" by (cases e) auto
  with assms show ?thesis
    by (simp add: remotify_frames consistent_def racing_def)
next
  case False
  from quiet_consistent [OF quiet_step [OF False] assms] show ?thesis .
qed

lemma run_consistent:
  "list_all consistent (frames R) \<Longrightarrow> list_all consistent (frames (run R es))"
  unfolding run_def by (induction es arbitrary: R) (simp_all add: step_consistent)

text \<open>Every frame of a caller that started new is consistent, whatever has happened.\<close>

lemma reachable_consistent:
  "list_all consistent (frames (run (fst (new_Remotify sid cid tmo sfx)) es))"
  by (rule run_consistent) (simp add: new_Remotify_def Let_def)

lemma pending_racing: "consistent f \<Longrightarrow> returned f = Pending \<Longrightarrow> racing f"
  by (auto simp: consistent_def)

lemma step_final:
  assumes "c < length (frames R)" and "Promise_race (frames R ! c) \<noteq> Pending"
  shows "c < length (frames (step R e)) \<and>
         Promise_race (frames (step R e) ! c) = Promise_race (frames R ! c) \<and>
         returned (frames (step R e) ! c) = returned (frames R ! c)"
proof (cases "is_Invoke e")
  case True
  then obtain n a where "e = Invoke n a" by (cases e) auto
  with assms show ?thesis
    by (simp add: remotify_frames nth_append)
next
  case False
  from quiet_step [OF False, of R]
  consider "frames (step R e) = frames R"
    | c' f' where "c' < length (frames R)" "touched (frames R ! c') f'"
        "frames (step R e) = (frames R)[c' := advance f']"
    unfolding quiet_def by blast
  then show ?thesis
  proof cases
    case 1
    with assms show ?thesis by simp
  next
    case 2
    show ?thesis
    proof (cases "c' = c")
      case True
      with 2 assms advance_final [of "frames R ! c" f'] show ?thesis by simp
    next
      case False
      with 2 assms show ?thesis by simp
    qed
  qed
qed

lemma run_final:
  assumes "c < length (frames R)" and "Promise_race (frames R ! c) \<noteq> Pending"
  shows "c < length (frames (run R es)) \<and>
         Promise_race (frames (run R es) ! c) = Promise_race (frames R ! c) \<and>
         returned (frames (run R es) ! c) = returned (frames R ! c)"
  using assms unfolding run_def
proof (induction es arbitrary: R)
  case Nil
  then show ?case by simp
next
  case (Cons e es)
  from step_final [OF Cons.prems, of e]
  have s: "c < length (frames (step R e))"
    "Promise_race (frames (step R e) ! c) = Promise_race (frames R ! c)"
    "returned (frames (step R e) ! c) = returned (frames R ! c)"
    by simp_all
  from s(2) Cons.prems(2) have "Promise_race (frames (step R e) ! c) \<noteq> Pending"
    by simp
  from Cons.IH [OF s(1) this] s show ?case by simp
qed

section \<open>Topics of the scheme\<close>

lemma split_nonempty: "split c s \<noteq> []"
  by (induction s) (auto split: list.splits)

lemma split_no_sep: "c \<notin> set s \<Longrightarrow> split c s = [s]"
  by (induction s) auto

lemma split_append: "c \<notin> set s \<Longrightarrow> split c (s @ c # t) = s # split c t"
  by (induction s) (auto simp: split_nonempty split: list.splits)


lemma split_callback_topic:
  "CHR ''/'' \<notin> set sid \<Longrightarrow>
     split CHR ''/'' (callback_topic sid cid) =
       [] # ''remotify'' # sid # ''callback'' # split CHR ''/'' cid"
  by (simp add: callback_topic_def split_append)

lemma split_call_topic:
  "CHR ''/'' \<notin> set sid \<Longrightarrow>
     split CHR ''/'' (call_topic sid n) = [] # ''remotify'' # sid # ''call'' # split CHR ''/'' n"
  by (simp add: call_topic_def split_append)

lemma element_simps [simp]:
  "element (x0 # xs) 0 = Some x0"
  "element (x0 # x1 # xs) 1 = Some x1"
  "element (x0 # x1 # xs) (Suc 0) = Some x1"
  "element (x0 # x1 # x2 # xs) 2 = Some x2"
  "element (x0 # x1 # x2 # x3 # xs) 3 = Some x3"
  "element (x0 # x1 # x2 # x3 # x4 # xs) 4 = Some x4"
  by (simp_all add: element_def)

lemma element_4_split:
  "element (x0 # x1 # x2 # x3 # split c n) 4 = Some (hd (split c n))"
  using split_nonempty [of c n] by (cases "split c n") simp_all

lemma element_4_rest:
  "element (x0 # x1 # x2 # x3 # xs) 4 = element xs 0"
  by (cases xs) (simp_all add: element_def)


section \<open>What each event does to a racing call\<close>

lemma settle_isDown_callbacks_eq:
  "c < length (frames R) \<Longrightarrow>
   callbacks (settle_isDown R c p) =
     (let f = (frames R ! c)\<lparr>isDown := settle (isDown (frames R ! c)) p\<rparr>
      in if Promise_race f = Pending \<and> Promise_race (advance f) = Fulfilled timedout
         then (callbacks R)(cb_id f := None) else callbacks R)"
  by (simp add: settle_isDown_def react_callbacks Let_def)

lemma settle_promise_callbacks_eq:
  "c < length (frames R) \<Longrightarrow>
   callbacks (settle_promise R c p) =
     (let f = (frames R ! c)\<lparr>promise := settle (promise (frames R ! c)) p\<rparr>
      in if Promise_race f = Pending \<and> Promise_race (advance f) = Fulfilled timedout
         then (callbacks R)(cb_id f := None) else callbacks R)"
  by (simp add: settle_promise_def react_callbacks Let_def)

lemma sleep_then_callbacks_eq:
  "c < length (frames R) \<Longrightarrow>
   callbacks (sleep_then R c) =
     (let f = (frames R ! c)\<lparr>sleep := True\<rparr>
      in if Promise_race f = Pending \<and> Promise_race (advance f) = Fulfilled timedout
         then (callbacks R)(cb_id f := None) else callbacks R)"
  by (simp add: sleep_then_def react_callbacks Let_def)

lemma sleep_then_racing:
  assumes "c < length (frames R)" and "racing (frames R ! c)"
  shows "returned (frames (sleep_then R c) ! c) = Rejected (Timeout (frames R ! c))"
    and "Promise_race (frames (sleep_then R c) ! c) = Fulfilled timedout"
    and "callbacks (sleep_then R c) = (callbacks R)(cb_id (frames R ! c) := None)"
  using assms
  by (auto simp: sleep_then_frames sleep_then_callbacks_eq advance_def outcome_def
        racing_def Promise_race_react_def Promise_all_react_def settle_def Let_def
        split: promise.splits)

lemma publish_then_zero_racing:
  assumes "c < length (frames R)" and "racing (frames R ! c)" and "isDown (frames R ! c) = Pending"
  shows "returned (frames (publish_then R c 0) ! c) = Rejected (backend_down (serverid R))"
    and "Promise_race (frames (publish_then R c 0) ! c) = Rejected (backend_down (serverid R))"
    and "callbacks (publish_then R c 0) = callbacks R"
  using assms
  by (auto simp: publish_then_def settle_isDown_frames settle_isDown_callbacks_eq
        advance_def outcome_def racing_def Promise_race_react_def Promise_all_react_def settle_def
        Let_def split: promise.splits)

lemma publish_catch_racing:
  assumes "c < length (frames R)" and "racing (frames R ! c)" and "isDown (frames R ! c) = Pending"
  shows "returned (frames (publish_catch R c err) ! c) = Rejected err"
    and "Promise_race (frames (publish_catch R c err) ! c) = Rejected err"
    and "callbacks (publish_catch R c err) = callbacks R"
  using assms
  by (auto simp: publish_catch_def settle_isDown_frames settle_isDown_callbacks_eq
        advance_def outcome_def racing_def Promise_race_react_def Promise_all_react_def settle_def
        Let_def split: promise.splits)


text \<open>An id that is not in the registry and not above the counter stays out of it.\<close>

lemma increment_bounds: "n \<le> increment n \<and> increment n \<le> Suc n"
  by (simp add: increment_def)




lemma cb_resolve_racing:
  assumes "c < length (frames R)" and "racing (frames R ! c)" and "promise (frames R ! c) = Pending"
  shows "promise (frames (cb_resolve R i c v) ! c) = Fulfilled v"
    and "returned (frames (cb_resolve R i c v) ! c) =
           (if isDown (frames R ! c) = Pending then Pending else Fulfilled v)"
    and "callbacks (cb_resolve R i c v) = (callbacks R)(i := None)"
  using assms
  by (auto simp: cb_resolve_def settle_promise_frames settle_promise_callbacks_eq
        advance_def outcome_def racing_def Promise_race_react_def Promise_all_react_def settle_def
        Let_def split: promise.splits)

lemma cb_reject_racing:
  assumes "c < length (frames R)" and "racing (frames R ! c)" and "promise (frames R ! c) = Pending"
  shows "promise (frames (cb_reject R i c v) ! c) = Rejected v"
    and "returned (frames (cb_reject R i c v) ! c) = Rejected v"
    and "callbacks (cb_reject R i c v) = (callbacks R)(i := None)"
  using assms
  by (auto simp: cb_reject_def settle_promise_frames settle_promise_callbacks_eq
        advance_def outcome_def racing_def Promise_race_react_def Promise_all_react_def settle_def
        Let_def split: promise.splits)

text \<open>What \<open>onCallback\<close> does with a message that passes its three checks.\<close>

lemma onCallback_reply:
  assumes "CHR ''/'' \<notin> set (serverid R)"
    and "field (parse_value j) ''callback'' = Some (Num (int i))"
    and "callbacks R i = Some c"
  shows "onCallback R (callback_topic (serverid R) cid) (Doc j) =
           ((if truthy (read (parse_value j) ''success'') then cb_resolve else cb_reject)
              R i c (read (parse_value j) ''result''), None)"
  using assms
  by (simp add: onCallback_def Let_def split_callback_topic callbacks_get_def)

definition demo_reply_topic :: string where
  "demo_reply_topic = ''/remotify/backend/callback/unnamed_0a1b2c3d4e5f60718293''"

definition demo_reply :: json where
  "demo_reply =
     JObj [(''method'', JStr ''/remotify/backend/call/Squarer.square''), (''callback'', JNum 1),
           (''success'', JBool True), (''result'', JNum 9)]"


section \<open>Down detection\<close>

text \<open>
  C5. While a call is still racing and its publish has not reported yet, a publish that
  reports zero subscribers rejects the call at once, in that very event; neither the
  timer nor a reply is waited for. What it rejects with is the BackendDown condition:
  an \<^verbatim>\<open>Error\<close> (named \<^verbatim>\<open>Error\<close>) whose \<^verbatim>\<open>cause\<close> is the tag
  \<^verbatim>\<open>remotifyBackendDown\<close>, the only own property it has, and whose message starts
  with the target \<open>serverid\<close>. A publish that reports a count above zero does not
  reject it: the call stays pending, or is fulfilled with the reply that had already
  come.
\<close>

theorem backend_down_immediate:
  assumes "c < length (frames R)" and "racing (frames R ! c)" and "isDown (frames R ! c) = Pending"
  shows "returned (frames (publish_then R c 0) ! c) = Rejected (backend_down (serverid R))
       \<and> is_Error (backend_down (serverid R))
       \<and> read (backend_down (serverid R)) ''cause'' = Str ''remotifyBackendDown''
       \<and> Object_keys (backend_down (serverid R)) = [''cause'']
       \<and> read (backend_down (serverid R)) ''name'' = Str ''Error''
       \<and> read (backend_down (serverid R)) ''message'' =
           Str (serverid R @ '' backend is down or method does not exist'')
       \<and> (0 < k \<longrightarrow>
            returned (frames (publish_then R c k) ! c) =
              (case promise (frames R ! c) of Fulfilled v \<Rightarrow> Fulfilled v | _ \<Rightarrow> Pending))"
proof -
  have "returned (frames (publish_then R c k) ! c) =
          (case promise (frames R ! c) of Fulfilled v \<Rightarrow> Fulfilled v | _ \<Rightarrow> Pending)"
    if "0 < k"
    using assms that
    by (auto simp: publish_then_def settle_isDown_frames advance_def outcome_def racing_def
          Promise_race_react_def Promise_all_react_def settle_def split: promise.splits)
  moreover have "returned (frames (publish_then R c 0) ! c) = Rejected (backend_down (serverid R))"
    using assms
    by (auto simp: publish_then_def settle_isDown_frames advance_def outcome_def racing_def
          Promise_race_react_def Promise_all_react_def settle_def split: promise.splits)
  moreover have "is_Error (backend_down (serverid R))"
    "read (backend_down (serverid R)) ''cause'' = Str ''remotifyBackendDown''"
    "Object_keys (backend_down (serverid R)) = [''cause'']"
    "read (backend_down (serverid R)) ''name'' = Str ''Error''"
    "read (backend_down (serverid R)) ''message'' =
       Str (serverid R @ '' backend is down or method does not exist'')"
    by (simp_all add: backend_down_eq)
  ultimately show ?thesis by blast
qed

theorem backend_down_immediate_witness:
  "returned (frames (publish_then demo_call 0 0) ! 0) = Rejected (backend_down ''backend'')
   \<and> is_Error (backend_down ''backend'')
   \<and> read (backend_down ''backend'') ''cause'' = Str ''remotifyBackendDown''
   \<and> read (backend_down ''backend'') ''message'' =
        Str ''backend backend is down or method does not exist''
   \<and> returned (frames (publish_then demo_call 0 1) ! 0) = Pending"
proof -
  have "racing (frames demo_call ! 0)"
    by (simp add: racing_def)
  from backend_down_immediate [of 0 demo_call 1, OF _ this] show ?thesis
    by simp
qed

section \<open>Timeout\<close>



section \<open>The two rejections of a call without a reply\<close>

text \<open>
  C10. A publish that reports zero subscribers rejects a racing call with an
  \<^verbatim>\<open>Error\<close> object whose \<^verbatim>\<open>cause\<close> is \<^verbatim>\<open>"remotifyBackendDown"\<close>; the timer
  rejects it with the plain record \<^verbatim>\<open>{cause: "timeout", fnname, args, message: "Timeout"}\<close>,
  which is not an \<^verbatim>\<open>Error\<close>; the two values differ whatever the names and arguments;
  and a call that has settled keeps its outcome through every later run of events, so
  no call produces both.
\<close>

theorem rejection_shapes:
  assumes "c < length (frames R)" and "racing (frames R ! c)"
    and "c' < length (frames R')" and "consistent (frames R' ! c')"
    and "returned (frames R' ! c') \<noteq> Pending"
  shows "(isDown (frames R ! c) = Pending \<longrightarrow>
            returned (frames (publish_then R c 0) ! c) = Rejected (backend_down (serverid R)))
       \<and> is_Error (backend_down (serverid R))
       \<and> read (backend_down (serverid R)) ''cause'' = Str ''remotifyBackendDown''
       \<and> returned (frames (sleep_then R c) ! c) = Rejected (Timeout (frames R ! c))
       \<and> \<not> is_Error (Timeout (frames R ! c))
       \<and> Timeout (frames R ! c) =
           Obj [(''cause'', Str ''timeout''), (''fnname'', Str (fnname (frames R ! c))),
                (''args'', Arr (args (frames R ! c))), (''message'', Str ''Timeout'')]
       \<and> backend_down sid \<noteq> Timeout f
       \<and> returned (frames (run R' es) ! c') = returned (frames R' ! c')"
proof -
  from assms(4,5) have "Promise_race (frames R' ! c') \<noteq> Pending"
    by (auto simp: consistent_def racing_def)
  from run_final [OF assms(3) this, of es]
  have "returned (frames (run R' es) ! c') = returned (frames R' ! c')"
    by simp
  with publish_then_zero_racing(1) [OF assms(1,2)] sleep_then_racing(1) [OF assms(1,2)]
  show ?thesis
    by (simp add: backend_down_eq Timeout_def)
qed

theorem rejection_shapes_witness:
  "returned (frames (publish_then demo_call 0 0) ! 0) = Rejected (backend_down ''backend'')
   \<and> is_Error (backend_down ''backend'')
   \<and> read (backend_down ''backend'') ''cause'' = Str ''remotifyBackendDown''
   \<and> returned (frames (sleep_then demo_call 0) ! 0) =
        Rejected (Obj [(''cause'', Str ''timeout''), (''fnname'', Str ''Squarer.square''),
                       (''args'', Arr [Num 3]), (''message'', Str ''Timeout'')])
   \<and> returned (frames (run (publish_then demo_call 0 0) [TimerFired 0]) ! 0) =
        Rejected (backend_down ''backend'')"
proof -
  have r: "racing (frames demo_call ! 0)"
    by (simp add: racing_def)
  have p: "isDown (frames demo_call ! 0) = Pending"
    by simp
  note z = publish_then_zero_racing [of 0 demo_call, OF _ r p, simplified]
  have c: "consistent (frames (publish_then demo_call 0 0) ! 0)"
    using z by (simp add: consistent_def)
  have l: "0 < length (frames (publish_then demo_call 0 0))"
    by (simp add: publish_then_def settle_isDown_def)
  have n: "returned (frames (publish_then demo_call 0 0) ! 0) \<noteq> Pending"
    using z by simp
  from rejection_shapes [of 0 demo_call 0 "publish_then demo_call 0 0" "''backend''"
      "frames demo_call ! 0" "[TimerFired 0]", OF _ r l c n] z
  show ?thesis by (simp add: Timeout_def)
qed

section \<open>The registry entry of a call whose publish failed\<close>

text \<open>
  C2. After a publish that reports zero subscribers the call is rejected and its entry
  is still in the registry, under its id; the timer that fires later does not remove
  it either. The same holds when the publish itself is rejected. The reply and
  timeout paths do remove the entry (\<open>cb_resolve_racing\<close>, \<open>cb_reject_racing\<close>,
  \<open>sleep_then_racing\<close>).
\<close>

theorem backend_down_leaves_entry:
  "(case remotify R n a of
      (R1, c, t, p) \<Rightarrow>
        returned (frames (publish_then R1 c 0) ! c) = Rejected (backend_down (serverid R))
        \<and> callbacks (publish_then R1 c 0) (cb_id (frames R1 ! c)) = Some c
        \<and> callbacks (sleep_then (publish_then R1 c 0) c) (cb_id (frames R1 ! c)) = Some c
        \<and> returned (frames (publish_catch R1 c err) ! c) = Rejected err
        \<and> callbacks (publish_catch R1 c err) (cb_id (frames R1 ! c)) = Some c)"
proof -
  obtain R1 c t p where rem: "remotify R n a = (R1, c, t, p)"
    by (cases "remotify R n a") auto
  then have R1: "R1 = fst (remotify R n a)" and c: "c = length (frames R)"
    using remotify_index [of R n a] by simp_all
  have len: "c < length (frames R1)"
    by (simp add: R1 c remotify_frames)
  have rac: "racing (frames R1 ! c)"
    unfolding R1 c by (rule remotify_racing)
  have pend: "isDown (frames R1 ! c) = Pending"
    by (simp add: R1 c remotify_frames)
  have entry: "callbacks R1 (cb_id (frames R1 ! c)) = Some c"
    by (simp add: R1 c remotify_frames remotify_callbacks)
  have sid: "serverid R1 = serverid R"
    by (simp add: R1)
  note z = publish_then_zero_racing [OF len rac pend]
  note e = publish_catch_racing [OF len rac pend, of err]
  have len': "c < length (frames (publish_then R1 c 0))"
    using len by (simp add: publish_then_def settle_isDown_def)
  have "Promise_race (frames (publish_then R1 c 0) ! c) \<noteq> Pending"
    using z(2) by simp
  then have "callbacks (sleep_then (publish_then R1 c 0) c) = callbacks (publish_then R1 c 0)"
    using len' by (simp add: sleep_then_callbacks_eq)
  with z e entry sid show ?thesis
    by (simp add: rem)
qed

section \<open>A reply addressed to another caller\<close>

text \<open>
  C3. \<open>onCallback\<close> does not look at the fifth segment of the topic. A reply on the
  reply topic of another caller of the same server (\<open>other\<close> is not this caller's
  \<open>clientid\<close>) that carries the id of a call pending here settles that call and removes
  its entry.
\<close>

theorem reply_for_other_caller_accepted:
  assumes "CHR ''/'' \<notin> set (serverid R)" and "other \<noteq> clientid (config R)"
    and "callbacks R i = Some c" and "c < length (frames R)"
    and "racing (frames R ! c)" and "promise (frames R ! c) = Pending"
  shows "(case onCallback R (callback_topic (serverid R) other)
                (Doc (JObj [(''method'', JStr m), (''callback'', JNum (int i)),
                            (''success'', JBool True), (''result'', r)])) of
            (R', e) \<Rightarrow> promise (frames R' ! c) = Fulfilled (parse_value r)
                       \<and> callbacks R' i = None \<and> R' \<noteq> R)"
proof -
  let ?j = "JObj [(''method'', JStr m), (''callback'', JNum (int i)),
                  (''success'', JBool True), (''result'', r)]"
  have cb: "field (parse_value ?j) ''callback'' = Some (Num (int i))"
    by (simp add: get_prop_def)
  have ok: "truthy (read (parse_value ?j) ''success'')"
    by (simp add: get_prop_def)
  have res: "read (parse_value ?j) ''result'' = parse_value r"
    by (simp add: get_prop_def)
  have "onCallback R (callback_topic (serverid R) other) (Doc ?j) =
          (cb_resolve R i c (parse_value r), None)"
    using onCallback_reply [OF assms(1) cb assms(3), of other] ok res by simp
  moreover from cb_resolve_racing(3) [OF assms(4-6), of i "parse_value r"] assms(3)
  have "cb_resolve R i c (parse_value r) \<noteq> R"
    by (metis fun_upd_same option.distinct(1))
  ultimately show ?thesis
    using cb_resolve_racing [OF assms(4-6), of i "parse_value r"] by simp
qed

theorem reply_for_other_caller_accepted_witness:
  "(case onCallback demo_call ''/remotify/backend/callback/somebody_else_ffffffffffffffffffff''
           (Doc (JObj [(''method'', JStr ''/remotify/backend/call/other''), (''callback'', JNum 1),
                       (''success'', JBool True), (''result'', JNum 7)])) of
      (R', e) \<Rightarrow> promise (frames R' ! 0) = Fulfilled (Num 7) \<and> callbacks R' 1 = None
                 \<and> R' \<noteq> demo_call)"
proof -
  have r: "racing (frames demo_call ! 0)"
    by (simp add: racing_def)
  from reply_for_other_caller_accepted [where R = demo_call
      and other = "''somebody_else_ffffffffffffffffffff''" and i = 1 and c = 0
      and m = "''/remotify/backend/call/other''" and r = "JNum 7", OF _ _ _ _ r]
  show ?thesis by (simp add: callback_topic_def)
qed

section \<open>Correlation ids\<close>

text \<open>
  The counter follows the number of calls until it reaches \<open>2 ^ 53\<close>, where
  \<^verbatim>\<open>++this.cbCounter\<close> stops changing it (\<open>counted\<close>).
\<close>

text \<open>The ids of the calls issued so far, in the order of the calls.\<close>

definition issued :: "Remotify \<Rightarrow> nat list" where
  "issued R = map cb_id (frames R)"

definition counted :: "Remotify \<Rightarrow> bool" where
  "counted R \<longleftrightarrow>
     cbCounter R = min (length (frames R)) (2 ^ 53) \<and>
     issued R = map (\<lambda>k. min (Suc k) (2 ^ 53)) [0..<length (frames R)]"

lemma quiet_issued:
  assumes "quiet R R'"
  shows "issued R' = issued R \<and> length (frames R') = length (frames R) \<and> cbCounter R' = cbCounter R"
proof -
  from assms consider "frames R' = frames R"
    | c f' where "c < length (frames R)" "touched (frames R ! c) f'"
        "frames R' = (frames R)[c := advance f']"
    unfolding quiet_def by blast
  then have "issued R' = issued R \<and> length (frames R') = length (frames R)"
  proof cases
    case 1
    then show ?thesis by (simp add: issued_def)
  next
    case 2
    from advance_cb_id [OF 2(2)] have "cb_id (advance f') = cb_id (frames R ! c)"
      by simp
    with 2(1) show ?thesis
      unfolding issued_def 2(3) by (simp add: map_update list_update_same_conv)
  qed
  with assms show ?thesis by (simp add: quiet_def)
qed

lemma increment_min: "increment (min n (2 ^ 53)) = min (Suc n) (2 ^ 53)"
  by (simp add: increment_def min_def)

lemma step_counted:
  assumes "counted R"
  shows "counted (step R e)"
proof (cases "is_Invoke e")
  case True
  then obtain n a where e: "e = Invoke n a" by (cases e) auto
  from assms have c: "cbCounter R = min (length (frames R)) (2 ^ 53)"
    and i: "map cb_id (frames R) = map (\<lambda>k. min (Suc k) (2 ^ 53)) [0..<length (frames R)]"
    by (simp_all only: counted_def issued_def)
  have n: "increment (cbCounter R) = min (Suc (length (frames R))) (2 ^ 53)"
    unfolding c by (rule increment_min)
  have "cbCounter (step R e) = min (length (frames (step R e))) (2 ^ 53)"
    unfolding e by (simp add: remotify_frames n del: min_Suc_numeral min_numeral_Suc)
  moreover have "map cb_id (frames (step R e)) =
      map (\<lambda>k. min (Suc k) (2 ^ 53)) [0..<length (frames (step R e))]"
    unfolding e by (simp add: remotify_frames n i del: min_Suc_numeral min_numeral_Suc)
  ultimately show ?thesis
    by (simp only: counted_def issued_def)
next
  case False
  from quiet_issued [OF quiet_step [OF False, of R]] assms show ?thesis
    by (simp add: counted_def)
qed

lemma run_counted: "counted R \<Longrightarrow> counted (run R es)"
  unfolding run_def by (induction es arbitrary: R) (simp_all add: step_counted)

lemma new_Remotify_counted: "counted (fst (new_Remotify sid cid tmo sfx))"
  by (simp add: counted_def issued_def new_Remotify_def Let_def)

text \<open>The id of a call is never above the counter.\<close>

lemma counted_ids_below:
  assumes "counted R" and "c < length (frames R)"
  shows "cb_id (frames R ! c) \<le> cbCounter R"
proof -
  from assms(1) have n: "cbCounter R = min (length (frames R)) (2 ^ 53)"
    and i: "map cb_id (frames R) = map (\<lambda>k. min (Suc k) (2 ^ 53)) [0..<length (frames R)]"
    by (simp_all only: counted_def issued_def)
  have "cb_id (frames R ! c) = map cb_id (frames R) ! c"
    using assms(2) by simp
  also have "\<dots> = min (Suc c) (2 ^ 53)"
    unfolding i using assms(2) by (simp del: min_Suc_numeral min_numeral_Suc)
  finally show ?thesis
    using n assms(2) by (simp add: min_def)
qed

lemma step_length:
  "length (frames (step R e)) = (if is_Invoke e then Suc (length (frames R)) else length (frames R))"
proof (cases "is_Invoke e")
  case True
  then obtain n a where e: "e = Invoke n a" by (cases e) auto
  show ?thesis unfolding e by (simp add: remotify_frames)
next
  case False
  from quiet_issued [OF quiet_step [OF False, of R]] False show ?thesis by simp
qed

lemma run_length:
  "length (frames (run R es)) = length (frames R) + length (filter is_Invoke es)"
  unfolding run_def by (induction es arbitrary: R) (simp_all add: step_length)

text \<open>
  C9, as amended. Through any run of events from a new caller, as long as no more than
  \<open>2 ^ 53\<close> calls have been issued, the ids of the calls are 1, 2, 3, ... in the order
  of the calls: they are distinct, strictly increasing, and the first is above zero.
\<close>

theorem ids_distinct_increasing:
  assumes "R = run (fst (new_Remotify sid cid tmo sfx)) es"
    and "length (frames R) \<le> 2 ^ 53"
  shows "issued R = [1..<Suc (length (frames R))]
       \<and> distinct (issued R) \<and> sorted_wrt (<) (issued R) \<and> (\<forall>i \<in> set (issued R). 0 < i)"
proof -
  have "counted R"
    unfolding assms(1) by (rule run_counted [OF new_Remotify_counted])
  then have "issued R = map (\<lambda>k. min (Suc k) (2 ^ 53)) [0..<length (frames R)]"
    by (simp add: counted_def)
  also have "\<dots> = map Suc [0..<length (frames R)]"
    using assms(2) by (intro map_cong) (auto simp: min_def)
  also have "\<dots> = [1..<Suc (length (frames R))]"
    by (simp add: map_Suc_upt)
  finally have eq: "issued R = [1..<Suc (length (frames R))]" .
  have "distinct [1..<Suc (length (frames R))]" "sorted_wrt (<) [1..<Suc (length (frames R))]"
    "\<forall>i \<in> set [1..<Suc (length (frames R))]. 0 < i"
    by (simp_all del: upt_Suc)
  with eq show ?thesis
    by (simp only: simp_thms)
qed

theorem ids_distinct_increasing_witness:
  "issued (run demo_caller [Invoke ''a'' [], TimerFired 0, Invoke ''b'' [Num 1]]) = [1, 2]"
proof -
  let ?es = "[Invoke ''a'' [], TimerFired 0, Invoke ''b'' [Num 1]]"
  have len: "length (frames (run demo_caller ?es)) = 2"
    by (simp add: run_length)
  have le: "length (frames (run demo_caller ?es)) \<le> 2 ^ 53"
    by (simp add: len)
  have "run demo_caller ?es =
      run (fst (new_Remotify ''backend'' None None ''0a1b2c3d4e5f60718293'')) ?es"
    by (simp only: demo_caller_def)
  from ids_distinct_increasing [OF this le]
  have "issued (run demo_caller ?es) = [1..<Suc 2]"
    by (simp only: len)
  then show ?thesis
    by (simp add: upt_rec)
qed

text \<open>
  C9 as stated fails for a caller that lives long enough: call number \<open>2 ^ 53 + 1\<close>
  gets the id of call number \<open>2 ^ 53\<close> again.
\<close>

definition flood :: "event list" where
  "flood = replicate (2 ^ 53 + 1) (Invoke ''Squarer.square'' [Num 3])"

lemma flood_invokes: "length (filter is_Invoke flood) = 2 ^ 53 + 1"
  unfolding flood_def by (simp only: filter_replicate is_Invoke.simps if_True length_replicate)

theorem ids_repeat_counterexample:
  "\<not> distinct (issued (run demo_caller flood))"
proof -
  let ?R = "run demo_caller flood"
  have len: "length (frames ?R) = 2 ^ 53 + 1"
    using run_length [of demo_caller flood] by (simp only: flood_invokes demo_caller_simps list.size add_0)
  have "counted ?R"
    unfolding demo_caller_def by (rule run_counted [OF new_Remotify_counted])
  then have iss: "issued ?R = map (\<lambda>k. min (Suc k) (2 ^ 53)) [0..<2 ^ 53 + 1]"
    by (simp only: counted_def len)
  have a: "issued ?R ! (2 ^ 53 - 1) = 2 ^ 53"
    unfolding iss by (subst nth_map) (simp_all del: upt_Suc)
  have b: "issued ?R ! (2 ^ 53) = 2 ^ 53"
    unfolding iss by (subst nth_map) (simp_all del: upt_Suc)
  have l: "length (issued ?R) = 2 ^ 53 + 1"
    by (simp only: issued_def length_map len)
  show ?thesis
  proof
    assume "distinct (issued ?R)"
    from this l have "issued ?R ! (2 ^ 53 - 1) \<noteq> issued ?R ! (2 ^ 53)"
      by (simp add: nth_eq_iff_index_eq)
    with a b show False by simp
  qed
qed

section \<open>Messages on other topics, and payloads that are not JSON\<close>

text \<open>
  The comparisons each dispatcher makes on the segments of a topic before it reads the
  payload.
\<close>

definition call_topic_checked :: "Listen \<Rightarrow> string \<Rightarrow> bool" where
  "call_topic_checked L t \<longleftrightarrow>
     (let segs = split CHR ''/'' t
      in element segs 1 = Some ''remotify'' \<and> element segs 2 = Some (Listen.serverid L) \<and>
         element segs 3 = Some ''call'')"

definition callback_topic_checked :: "Remotify \<Rightarrow> string \<Rightarrow> bool" where
  "callback_topic_checked R t \<longleftrightarrow>
     (let segs = split CHR ''/'' t
      in element segs 1 = Some ''remotify'' \<and> element segs 2 = Some (serverid R) \<and>
         element segs 3 = Some ''callback'')"

definition event_topic_checked :: "RedisEventSubscriber \<Rightarrow> string \<Rightarrow> bool" where
  "event_topic_checked S t \<longleftrightarrow>
     (let segs = split CHR ''/'' t
      in element segs 1 = Some ''remotifyEvent'' \<and> element segs 2 = Some (ns S))"

text \<open>The handler of the repository's example: \<^verbatim>\<open>async square(x) { return x ** 2 }\<close>,
  on the numbers of the model; on anything else it throws.\<close>

definition square :: handler where
  "square a = (case a of [Num x] \<Rightarrow> Returns (Num (x * x)) | _ \<Rightarrow> Throws (new_Error ''boom''))"

definition demo_listener :: Listen where
  "demo_listener = fst (listen (new_Listen ''backend'') square ''Squarer.square'')"

definition demo_subscriber :: RedisEventSubscriber where
  "demo_subscriber = \<lparr>ns = ''news'', listener = [''created'' \<mapsto> Function]\<rparr>"

lemma demo_listener_simps [simp]:
  "Listen.serverid demo_listener = ''backend''"
  "fns demo_listener ''Squarer.square'' = Some square"
  "n \<noteq> ''Squarer.square'' \<Longrightarrow> fns demo_listener n = None"
  by (simp_all add: demo_listener_def listen_def new_Listen_def)

text \<open>
  C7, as amended. A message whose topic fails one of the comparisons its dispatcher makes
  is ignored whatever its payload: nothing is thrown, nothing is published, and the
  listener and the caller are as before. A message whose topic passes them and whose
  payload is not JSON is not ignored: the \<^verbatim>\<open>SyntaxError\<close> of \<^verbatim>\<open>JSON.parse\<close>
  escapes the dispatcher; the registries are as before.
\<close>

theorem mismatched_topic_ignored:
  "(\<not> call_topic_checked L t \<longrightarrow> onCall L t str = (L, Ignored))
   \<and> (\<not> callback_topic_checked R t \<longrightarrow> onCallback R t str = (R, None))
   \<and> (\<not> event_topic_checked S t \<longrightarrow> onEvent S t str = EventIgnored)
   \<and> (call_topic_checked L t \<longrightarrow> onCall L t (NotJson x) = (L, Raised SyntaxError))
   \<and> (callback_topic_checked R t \<longrightarrow> onCallback R t (NotJson x) = (R, Some SyntaxError))
   \<and> (event_topic_checked S t \<longrightarrow> onEvent S t (NotJson x) = EventRaised SyntaxError)"
  by (auto simp: call_topic_checked_def callback_topic_checked_def event_topic_checked_def
        onCall_def onCallback_def onEvent_def Let_def)

theorem mismatched_topic_ignored_witness:
  "onCall demo_listener ''/remotify/frontend/call/Squarer.square'' (NotJson ''{'') =
     (demo_listener, Ignored)
   \<and> onCallback demo_call ''/remotify/backend/call/Squarer.square'' (NotJson ''{'') =
     (demo_call, None)
   \<and> onEvent demo_subscriber ''/remotify/backend/call/Squarer.square'' (NotJson ''{'') =
     EventIgnored
   \<and> onCall demo_listener ''/remotify/backend/call/Squarer.square'' (NotJson ''{'') =
     (demo_listener, Raised SyntaxError)
   \<and> onCallback demo_call demo_reply_topic (NotJson ''{'') = (demo_call, Some SyntaxError)
   \<and> onEvent demo_subscriber ''/remotifyEvent/news'' (NotJson ''{'') = EventRaised SyntaxError"
proof -
  have a: "\<not> call_topic_checked demo_listener ''/remotify/frontend/call/Squarer.square''"
    by (simp add: call_topic_checked_def)
  have b: "\<not> callback_topic_checked demo_call ''/remotify/backend/call/Squarer.square''"
    by (simp add: callback_topic_checked_def)
  have c: "\<not> event_topic_checked demo_subscriber ''/remotify/backend/call/Squarer.square''"
    by (simp add: event_topic_checked_def)
  have d: "call_topic_checked demo_listener ''/remotify/backend/call/Squarer.square''"
    by (simp add: call_topic_checked_def)
  have e: "callback_topic_checked demo_call demo_reply_topic"
    by (simp add: callback_topic_checked_def demo_reply_topic_def)
  have f: "event_topic_checked demo_subscriber ''/remotifyEvent/news''"
    by (simp add: event_topic_checked_def demo_subscriber_def)
  from a mismatched_topic_ignored [of demo_listener "''/remotify/frontend/call/Squarer.square''"
      "NotJson ''{''" demo_call demo_subscriber "''{''"]
  have 1: "onCall demo_listener ''/remotify/frontend/call/Squarer.square'' (NotJson ''{'') =
     (demo_listener, Ignored)" by blast
  from b c d mismatched_topic_ignored [of demo_listener "''/remotify/backend/call/Squarer.square''"
      "NotJson ''{''" demo_call demo_subscriber "''{''"]
  have 2: "onCallback demo_call ''/remotify/backend/call/Squarer.square'' (NotJson ''{'') =
     (demo_call, None)"
    "onEvent demo_subscriber ''/remotify/backend/call/Squarer.square'' (NotJson ''{'') =
     EventIgnored"
    "onCall demo_listener ''/remotify/backend/call/Squarer.square'' (NotJson ''{'') =
     (demo_listener, Raised SyntaxError)" by blast+
  from e mismatched_topic_ignored [of demo_listener demo_reply_topic
      "NotJson ''{''" demo_call demo_subscriber "''{''"]
  have 3: "onCallback demo_call demo_reply_topic (NotJson ''{'') = (demo_call, Some SyntaxError)"
    by blast
  from f mismatched_topic_ignored [of demo_listener "''/remotifyEvent/news''"
      "NotJson ''{''" demo_call demo_subscriber "''{''"]
  have 4: "onEvent demo_subscriber ''/remotifyEvent/news'' (NotJson ''{'') = EventRaised SyntaxError"
    by blast
  from 1 2 3 4 show ?thesis by simp
qed

text \<open>
  C7 as stated fails: on a matching topic, a payload that is not JSON raises an error
  in each of the three dispatchers.
\<close>

theorem malformed_payload_counterexample:
  "snd (onCallback demo_call demo_reply_topic (NotJson ''{'')) = Some SyntaxError
   \<and> snd (onCall demo_listener ''/remotify/backend/call/Squarer.square'' (NotJson ''{'')) =
       Raised SyntaxError
   \<and> onEvent demo_subscriber ''/remotifyEvent/news'' (NotJson ''{'') = EventRaised SyntaxError"
  by (simp add: onCallback_def onCall_def onEvent_def Let_def demo_reply_topic_def
        demo_subscriber_def)

section \<open>Unknown functions\<close>








section \<open>Values through JSON\<close>

text \<open>
  The values JSON carries unchanged: no \<^verbatim>\<open>undefined\<close> and no \<^verbatim>\<open>Error\<close> anywhere
  inside. (An object has each key once, as every JavaScript object has.)
\<close>

fun representable :: "jsval \<Rightarrow> bool" where
  "representable Undefined = False"
| "representable Null = True"
| "representable (Bool b) = True"
| "representable (Num n) = True"
| "representable (Str s) = True"
| "representable (Arr xs) = list_all representable xs"
| "representable (Obj ps) = (distinct (map fst ps) \<and> list_all (\<lambda>(k, v). representable v) ps)"
| "representable (Err m s n own) = False"

text \<open>
  What arrives at the other end for a value that is sent as a property of a message:
  \<^verbatim>\<open>JSON.parse(JSON.stringify({p: v}, replacer)).p\<close>.
\<close>

definition wire :: "replacer \<Rightarrow> jsval \<Rightarrow> jsval" where
  "wire r v = (case serialize r v of None \<Rightarrow> Undefined | Some j \<Rightarrow> parse_value j)"

text \<open>The members an object is serialized to, and the object a list of members parses to.\<close>

definition members :: "replacer \<Rightarrow> (string \<times> jsval) list \<Rightarrow> (string \<times> json) list" where
  "members r ps =
     concat (map (\<lambda>(k, x). case serialize r x of None \<Rightarrow> [] | Some j \<Rightarrow> [(k, j)]) ps)"

definition make_object :: "(string \<times> jsval) list \<Rightarrow> (string \<times> jsval) list" where
  "make_object ps = foldl (\<lambda>obj (k, v). set_prop obj k v) [] ps"

lemma serialize_Obj: "serialize r (Obj ps) = Some (JObj (members r ps))"
  by (simp add: members_def)

lemma serialize_Err:
  "serialize JsonReplacer (Err m s n own) =
     Some (JObj (members JsonReplacer (error_record (Err m s n own))))"
  by (simp add: members_def)

lemma parse_JObj: "parse_value (JObj ms) = Obj (make_object (map (\<lambda>(k, j). (k, parse_value j)) ms))"
  by (simp add: make_object_def)

lemma members_Nil [simp]: "members r [] = []"
  by (simp add: members_def)

lemma members_Cons [simp]:
  "members r ((k, x) # ps) =
     (case serialize r x of None \<Rightarrow> [] | Some j \<Rightarrow> [(k, j)]) @ members r ps"
  by (simp add: members_def)

lemma set_prop_new: "k \<notin> fst ` set ps \<Longrightarrow> set_prop ps k v = ps @ [(k, v)]"
  by (induction ps) auto

lemma foldl_set_prop_distinct:
  "distinct (map fst (acc @ ps)) \<Longrightarrow>
     foldl (\<lambda>obj (k, v). set_prop obj k v) acc ps = acc @ ps"
proof (induction ps arbitrary: acc)
  case Nil
  then show ?case by simp
next
  case (Cons p ps)
  obtain k v where p: "p = (k, v)" by (cases p)
  from Cons.prems have "k \<notin> fst ` set acc"
    by (auto simp: p)
  then have "set_prop acc k v = acc @ [(k, v)]"
    by (rule set_prop_new)
  moreover from Cons.prems have "distinct (map fst ((acc @ [(k, v)]) @ ps))"
    by (simp add: p)
  ultimately show ?case
    using Cons.IH [of "acc @ [(k, v)]"] by (simp add: p)
qed

lemma make_object_distinct: "distinct (map fst ps) \<Longrightarrow> make_object ps = ps"
  unfolding make_object_def using foldl_set_prop_distinct [of "[]" ps] by simp

lemma fst_members: "fst ` set (members r ps) \<subseteq> fst ` set ps"
proof (induction ps)
  case Nil
  then show ?case by simp
next
  case (Cons p ps)
  obtain k x where p: "p = (k, x)" by (cases p)
  from Cons show ?case
    by (cases "serialize r x") (auto simp: p)
qed

lemma distinct_members: "distinct (map fst ps) \<Longrightarrow> distinct (map fst (members r ps))"
proof (induction ps)
  case Nil
  then show ?case by simp
next
  case (Cons p ps)
  obtain k x where p: "p = (k, x)" by (cases p)
  from Cons.prems have k: "k \<notin> fst ` set ps" and d: "distinct (map fst ps)"
    by (auto simp: p)
  from k fst_members [of r ps] have "k \<notin> fst ` set (members r ps)"
    by auto
  with Cons.IH [OF d] show ?case
    by (cases "serialize r x") (simp_all add: p)
qed

lemma map_of_members:
  "distinct (map fst ps) \<Longrightarrow>
     map_of (members r ps) k = (case map_of ps k of None \<Rightarrow> None | Some x \<Rightarrow> serialize r x)"
proof (induction ps)
  case Nil
  then show ?case by simp
next
  case (Cons p ps)
  obtain k' x where p: "p = (k', x)" by (cases p)
  show ?case
  proof (cases "k' = k")
    case True
    from Cons.prems have "k \<notin> fst ` set ps"
      by (auto simp: p True)
    then have "k \<notin> fst ` set (members r ps)"
      using fst_members [of r ps] by auto
    then have "map_of (members r ps) k = None"
      by (simp add: map_of_eq_None_iff)
    then show ?thesis
      by (simp add: p True split: option.splits)
  next
    case False
    with Cons show ?thesis
      by (simp add: p split: option.splits)
  qed
qed

lemma map_of_parsed:
  "map_of (map (\<lambda>(k, j). (k, parse_value j)) ms) k = map_option parse_value (map_of ms k)"
  by (induction ms) auto

lemma fst_parsed: "map fst (map (\<lambda>(k, j). (k, parse_value j)) ms) = map fst ms"
  by (induction ms) auto

text \<open>Reading a property of the parsed image of an object.\<close>

lemma read_parsed_members:
  assumes "distinct (map fst ps)"
  shows "read (parse_value (JObj (members r ps))) k =
           (case map_of ps k of None \<Rightarrow> Undefined | Some x \<Rightarrow> wire r x)"
proof -
  have d: "distinct (map fst (map (\<lambda>(k, j). (k, parse_value j)) (members r ps)))"
    unfolding fst_parsed by (rule distinct_members [OF assms])
  have "parse_value (JObj (members r ps)) =
      Obj (map (\<lambda>(k, j). (k, parse_value j)) (members r ps))"
    by (simp only: parse_JObj make_object_distinct [OF d])
  then show ?thesis
    by (simp add: get_prop_def map_of_parsed map_of_members [OF assms] wire_def
          split: option.splits)
qed

lemma members_representable:
  assumes "\<And>k x. (k, x) \<in> set ps \<Longrightarrow> \<exists>j. serialize r x = Some j \<and> parse_value j = x"
  shows "map (\<lambda>(k, j). (k, parse_value j)) (members r ps) = ps"
  using assms
proof (induction ps)
  case Nil
  then show ?case by simp
next
  case (Cons p ps)
  obtain k x where p: "p = (k, x)" by (cases p)
  from Cons.prems [of k x] obtain j where "serialize r x = Some j" "parse_value j = x"
    by (auto simp: p)
  moreover have "map (\<lambda>(k, j). (k, parse_value j)) (members r ps) = ps"
    by (rule Cons.IH) (use Cons.prems in auto)
  ultimately show ?case by (simp add: p)
qed

lemma roundtrip:
  "representable v \<Longrightarrow> \<exists>j. serialize r v = Some j \<and> parse_value j = v"
proof (induction v)
  case (Arr xs)
  have "parse_value (case serialize r x of None \<Rightarrow> JNull | Some j \<Rightarrow> j) = x" if "x \<in> set xs" for x
  proof -
    from Arr.prems that have "representable x"
      by (simp add: list_all_iff)
    from Arr.IH [OF that this] show ?thesis by auto
  qed
  then have "map (parse_value \<circ> (\<lambda>x. case serialize r x of None \<Rightarrow> JNull | Some j \<Rightarrow> j)) xs = xs"
    by (intro map_idI) simp
  then show ?case by simp
next
  case (Obj ps)
  have "map (\<lambda>(k, j). (k, parse_value j)) (members r ps) = ps"
  proof (rule members_representable)
    fix k x assume "(k, x) \<in> set ps"
    with Obj show "\<exists>j. serialize r x = Some j \<and> parse_value j = x"
      by (fastforce simp: list_all_iff)
  qed
  moreover from Obj.prems have "distinct (map fst ps)" by simp
  ultimately show ?case
    by (simp add: serialize_Obj parse_JObj make_object_distinct del: serialize.simps parse_value.simps)
qed simp_all

lemma wire_representable: "representable v \<Longrightarrow> wire r v = v"
  using roundtrip [of v r] by (auto simp: wire_def)

lemma wire_Undefined [simp]: "wire r Undefined = Undefined"
  by (simp add: wire_def)

lemma map_of_set_prop: "map_of (set_prop ps k v) = (map_of ps)(k \<mapsto> v)"
  by (induction ps) (auto simp: fun_eq_iff)

lemma fst_set_prop: "fst ` set (set_prop ps k v) = insert k (fst ` set ps)"
proof (induction ps)
  case Nil
  then show ?case by simp
next
  case (Cons p ps)
  obtain k' v' where p: "p = (k', v')" by (cases p)
  from Cons show ?case
    by (cases "k' = k") (simp_all add: p insert_commute)
qed

lemma distinct_set_prop: "distinct (map fst ps) \<Longrightarrow> distinct (map fst (set_prop ps k v))"
proof (induction ps)
  case Nil
  then show ?case by simp
next
  case (Cons p ps)
  obtain k' v' where p: "p = (k', v')" by (cases p)
  from Cons show ?case
    using fst_set_prop [of ps k v] by (auto simp: p)
qed

lemma distinct_foldl_set_prop:
  "distinct (map fst ps) \<Longrightarrow> distinct (map fst (foldl (\<lambda>obj k. set_prop obj k (f k)) ps ks))"
  by (induction ks arbitrary: ps) (simp_all add: distinct_set_prop)

lemma map_of_foldl_set_prop:
  "map_of (foldl (\<lambda>obj k. set_prop obj k (f k)) ps ks) k =
     (if k \<in> set ks then Some (f k) else map_of ps k)"
  by (induction ks arbitrary: ps) (auto simp: map_of_set_prop)

lemma distinct_error_record: "distinct (map fst (error_record e))"
  unfolding error_record_def by (rule distinct_foldl_set_prop) simp

lemma map_of_error_record:
  "map_of (error_record e) k =
     (if k \<in> {''message'', ''stack'', ''name''} \<union> set (Object_keys e) then Some (read e k) else None)"
  unfolding error_record_def by (simp add: map_of_foldl_set_prop)

text \<open>The image of an error at the other end, property by property.\<close>

lemma read_wire_Err:
  assumes "is_Error e"
  shows "read (wire JsonReplacer e) k =
           (if k \<in> {''message'', ''stack'', ''name''} \<union> set (Object_keys e)
            then wire JsonReplacer (read e k) else Undefined)"
proof -
  from assms obtain m s n own where e: "e = Err m s n own"
    by (cases e) auto
  have "wire JsonReplacer e = parse_value (JObj (members JsonReplacer (error_record e)))"
    unfolding e wire_def by (simp only: serialize_Err option.case)
  then show ?thesis
    by (simp add: read_parsed_members [OF distinct_error_record] map_of_error_record
          del: parse_value.simps)
qed

lemma wire_Err_Obj:
  assumes "is_Error e"
  shows "\<exists>ps. wire JsonReplacer e = Obj ps"
proof -
  from assms obtain m s n own where e: "e = Err m s n own"
    by (cases e) auto
  show ?thesis
    unfolding e wire_def by (simp only: serialize_Err option.case parse_JObj) simp
qed

lemma read_jsonReplacer:
  assumes "is_Error e" and "k \<in> {''message'', ''stack'', ''name''} \<union> set (Object_keys e)"
  shows "read (jsonReplacer e) k = read e k"
  using assms by (simp add: jsonReplacer_def get_prop_def map_of_error_record)

text \<open>The reply, parsed at the caller.\<close>

lemma reply_parsed:
  obtains j where "JSON_stringify JsonReplacer (Callback t (Num i) ok res) = Doc j"
    and "field (parse_value j) ''callback'' = Some (Num i)"
    and "read (parse_value j) ''success'' = Bool ok"
    and "read (parse_value j) ''result'' = wire JsonReplacer res"
proof (cases "serialize JsonReplacer res")
  case None
  let ?j = "JObj [(''method'', JStr t), (''callback'', JNum i), (''success'', JBool ok)]"
  have "JSON_stringify JsonReplacer (Callback t (Num i) ok res) = Doc ?j"
    by (simp add: JSON_stringify_def Callback_def None)
  moreover have "field (parse_value ?j) ''callback'' = Some (Num i)"
    "read (parse_value ?j) ''success'' = Bool ok"
    "read (parse_value ?j) ''result'' = wire JsonReplacer res"
    by (simp_all add: get_prop_def wire_def None)
  ultimately show ?thesis by (rule that)
next
  case (Some r)
  let ?j = "JObj [(''method'', JStr t), (''callback'', JNum i), (''success'', JBool ok),
                  (''result'', r)]"
  have "JSON_stringify JsonReplacer (Callback t (Num i) ok res) = Doc ?j"
    by (simp add: JSON_stringify_def Callback_def Some)
  moreover have "field (parse_value ?j) ''callback'' = Some (Num i)"
    "read (parse_value ?j) ''success'' = Bool ok"
    "read (parse_value ?j) ''result'' = wire JsonReplacer res"
    by (simp_all add: get_prop_def wire_def Some)
  ultimately show ?thesis by (rule that)
qed

text \<open>The call message, parsed at the listener.\<close>

lemma call_parsed:
  assumes "list_all representable a"
  obtains j where
    "JSON_stringify NoReplacer
       (Obj [(''clientid'', Str cid), (''callback'', Num i), (''arguments'', Arr a)]) = Doc j"
    and "field (parse_value j) ''callback'' = Some (Num i)"
    and "read (parse_value j) ''clientid'' = Str cid"
    and "read (parse_value j) ''arguments'' = Arr a"
proof -
  from assms have "representable (Arr a)" by simp
  from roundtrip [OF this, of NoReplacer] obtain ja where
    ja: "serialize NoReplacer (Arr a) = Some ja" "parse_value ja = Arr a"
    by blast
  let ?j = "JObj [(''clientid'', JStr cid), (''callback'', JNum i), (''arguments'', ja)]"
  have "serialize NoReplacer (Obj [(''clientid'', Str cid), (''callback'', Num i), (''arguments'', Arr a)]) =
      Some ?j"
    unfolding serialize_Obj using ja(1) by (simp del: serialize.simps(6))
  then have "JSON_stringify NoReplacer
       (Obj [(''clientid'', Str cid), (''callback'', Num i), (''arguments'', Arr a)]) = Doc ?j"
    by (simp only: JSON_stringify_def option.case)
  moreover have "field (parse_value ?j) ''callback'' = Some (Num i)"
    "read (parse_value ?j) ''clientid'' = Str cid"
    "read (parse_value ?j) ''arguments'' = Arr a"
    using ja(2) by (simp_all add: get_prop_def)
  ultimately show ?thesis by (rule that)
qed

text \<open>What \<open>onCall\<close> does with a call of a registered function.\<close>

lemma onCall_known:
  assumes "call_topic_checked L t"
    and "element (split CHR ''/'' t) 4 = Some n" and "fns L n = Some f"
    and "field (parse_value j) ''callback'' = Some cb"
    and "spread (read (parse_value j) ''arguments'') = Some a"
  shows "onCall L t (Doc j) =
           (case f a of
              Returns v \<Rightarrow>
                (L, Published (callback_topic (Listen.serverid L) (ToString (read (parse_value j) ''clientid'')))
                      (JSON_stringify JsonReplacer (Callback t cb True v)))
            | Throws e \<Rightarrow>
                (L, Published (callback_topic (Listen.serverid L) (ToString (read (parse_value j) ''clientid'')))
                      (JSON_stringify JsonReplacer (Callback t cb False e)))
            | Never \<Rightarrow> (L, Suspended))"
  using assms by (simp add: onCall_def call_topic_checked_def Let_def split: completion.splits)

section \<open>A call over the bus\<close>

lemma publish_then_pos_racing:
  assumes "c < length (frames R)" and "racing (frames R ! c)" and "isDown (frames R ! c) = Pending"
    and "0 < k"
  shows "returned (frames (publish_then R c k) ! c) =
           (case promise (frames R ! c) of Fulfilled v \<Rightarrow> Fulfilled v | _ \<Rightarrow> Pending)"
    and "promise (frames R ! c) = Pending \<Longrightarrow> racing (frames (publish_then R c k) ! c)"
    and "isDown (frames (publish_then R c k) ! c) = Fulfilled ()"
    and "promise (frames (publish_then R c k) ! c) = promise (frames R ! c)"
    and "callbacks (publish_then R c k) = callbacks R"
    and "length (frames (publish_then R c k)) = length (frames R)"
    and "serverid (publish_then R c k) = serverid R"
  using assms
  by (auto simp: publish_then_def settle_isDown_frames settle_isDown_callbacks_eq
        advance_def outcome_def racing_def Promise_race_react_def Promise_all_react_def settle_def
        Let_def split: promise.splits)

lemma settle_length [simp]:
  "length (frames (settle_promise R c p)) = length (frames R)"
  "length (frames (settle_isDown R c q)) = length (frames R)"
  "length (frames (sleep_then R c)) = length (frames R)"
  by (simp_all add: settle_promise_def settle_isDown_def sleep_then_def)

lemma cb_length [simp]:
  "length (frames (cb_resolve R i c v)) = length (frames R)"
  "length (frames (cb_reject R i c v)) = length (frames R)"
  by (simp_all add: cb_resolve_def cb_reject_def)

lemma cb_resolve_first:
  assumes "c < length (frames R)" and "racing (frames R ! c)" and "promise (frames R ! c) = Pending"
    and "isDown (frames R ! c) = Pending"
  shows "racing (frames (cb_resolve R i c v) ! c)"
    and "isDown (frames (cb_resolve R i c v) ! c) = Pending"
    and "length (frames (cb_resolve R i c v)) = length (frames R)"
  using assms
  by (auto simp: cb_resolve_def settle_promise_frames
        advance_def outcome_def racing_def Promise_race_react_def Promise_all_react_def settle_def
        Let_def split: promise.splits)

lemma remotify_eq:
  "remotify R n a =
     (fst (remotify R n a), length (frames R), call_topic (serverid R) n,
      JSON_stringify NoReplacer
        (Obj [(''clientid'', Str (clientid (config R))),
              (''callback'', Num (int (increment (cbCounter R)))), (''arguments'', Arr a)]))"
  by (simp add: remotify_def addCallback_def Let_def)

lemma remotify_fresh:
  "length (frames (fst (remotify R n a))) = Suc (length (frames R))"
  "isDown (frames (fst (remotify R n a)) ! length (frames R)) = Pending"
  "promise (frames (fst (remotify R n a)) ! length (frames R)) = Pending"
  "callbacks (fst (remotify R n a)) (increment (cbCounter R)) = Some (length (frames R))"
  by (simp_all add: remotify_frames remotify_callbacks)

text \<open>
  One call carried over the bus with no failure injected: the call message reaches the
  listener, the reply the listener publishes reaches the caller, and the publish of the
  call reports \<open>listenedCount\<close> subscribers, before the reply comes or after it. The
  result is the promise the caller's invocation returned, after these events.
\<close>

definition remote_call ::
  "Listen \<Rightarrow> Remotify \<Rightarrow> string \<Rightarrow> jsval list \<Rightarrow> nat \<Rightarrow> bool \<Rightarrow> jsval promise" where
  "remote_call L R n a listenedCount reply_first =
     (case remotify R n a of
        (R1, c, t, p) \<Rightarrow>
          (case onCall L t p of
             (L', Published t' p') \<Rightarrow>
               returned (frames
                 (if reply_first then publish_then (fst (onCallback R1 t' p')) c listenedCount
                  else fst (onCallback (publish_then R1 c listenedCount) t' p')) ! c)
           | (L', _) \<Rightarrow> returned (frames (publish_then R1 c listenedCount) ! c)))"

lemma remote_call_known:
  assumes reg: "fns L n = Some f" and sid: "Listen.serverid L = serverid R"
    and s1: "CHR ''/'' \<notin> set (serverid R)" and s2: "CHR ''/'' \<notin> set n"
    and safe: "list_all representable a" and k: "0 < k"
    and fin: "f a = Returns v \<and> ok \<or> f a = Throws v \<and> \<not> ok"
  shows "remote_call L R n a k b =
           (if ok then Fulfilled (wire JsonReplacer v) else Rejected (wire JsonReplacer v))"
proof -
  define R1 where "R1 = fst (remotify R n a)"
  let ?c = "length (frames R)"
  let ?t = "call_topic (serverid R) n" and ?i = "increment (cbCounter R)"
  let ?cid = "clientid (config R)"
  let ?t' = "callback_topic (serverid R) ?cid"
  obtain j where j: "JSON_stringify NoReplacer
       (Obj [(''clientid'', Str ?cid), (''callback'', Num (int ?i)), (''arguments'', Arr a)]) = Doc j"
    and jcb: "field (parse_value j) ''callback'' = Some (Num (int ?i))"
    and jcl: "read (parse_value j) ''clientid'' = Str ?cid"
    and jar: "read (parse_value j) ''arguments'' = Arr a"
    by (rule call_parsed [OF safe])
  have rem: "remotify R n a = (R1, ?c, ?t, Doc j)"
    using remotify_eq [of R n a] j by (simp add: R1_def)
  have chk: "call_topic_checked L ?t"
    using s1 sid by (simp add: call_topic_checked_def Let_def split_call_topic)
  have seg: "element (split CHR ''/'' ?t) 4 = Some n"
    using s1 s2 by (simp add: split_call_topic split_no_sep)
  have spr: "spread (read (parse_value j) ''arguments'') = Some a"
    by (simp add: jar)
  obtain j' where j': "JSON_stringify JsonReplacer (Callback ?t (Num (int ?i)) ok v) = Doc j'"
    and rcb: "field (parse_value j') ''callback'' = Some (Num (int ?i))"
    and rok: "read (parse_value j') ''success'' = Bool ok"
    and rres: "read (parse_value j') ''result'' = wire JsonReplacer v"
    by (rule reply_parsed)
  have call: "onCall L ?t (Doc j) = (L, Published ?t' (Doc j'))"
    using onCall_known [OF chk seg reg jcb spr] fin j' jcl sid by auto
  have len: "?c < length (frames R1)" and rac: "racing (frames R1 ! ?c)"
    and pend: "isDown (frames R1 ! ?c) = Pending" "promise (frames R1 ! ?c) = Pending"
    and entry: "callbacks R1 ?i = Some ?c" and sid1: "serverid R1 = serverid R"
    by (simp_all add: R1_def remotify_fresh remotify_racing)
  let ?settle = "if ok then cb_resolve else cb_reject"
  have deliver: "onCallback R' ?t' (Doc j') = (?settle R' ?i ?c (wire JsonReplacer v), None)"
    if "serverid R' = serverid R" "callbacks R' ?i = Some ?c" for R'
    using onCallback_reply [of R' j' ?i ?c ?cid] that s1 rcb rok rres by simp
  show ?thesis
  proof (cases b)
    case True
    have 1: "fst (onCallback R1 ?t' (Doc j')) = ?settle R1 ?i ?c (wire JsonReplacer v)"
      using deliver [OF sid1 entry] by simp
    show ?thesis
    proof (cases ok)
      case True
      note f = cb_resolve_first [OF len rac pend(2) pend(1), of ?i "wire JsonReplacer v"]
      have "?c < length (frames (cb_resolve R1 ?i ?c (wire JsonReplacer v)))"
        using len by simp
      from publish_then_pos_racing(1) [OF this f(1) f(2) k]
        cb_resolve_racing(1) [OF len rac pend(2), of ?i "wire JsonReplacer v"]
      show ?thesis
        using \<open>b\<close> True by (simp add: remote_call_def rem call 1)
    next
      case False
      note r = cb_reject_racing [OF len rac pend(2), of ?i "wire JsonReplacer v"]
      have l: "?c < length (frames (cb_reject R1 ?i ?c (wire JsonReplacer v)))"
        using len by simp
      have "Promise_race (frames (cb_reject R1 ?i ?c (wire JsonReplacer v)) ! ?c) \<noteq> Pending"
        using len rac pend(2)
        by (auto simp: cb_reject_def settle_promise_frames advance_def outcome_def racing_def
              Promise_race_react_def Promise_all_react_def settle_def Let_def split: promise.splits)
      from step_final [OF l this, of "PublishResolved ?c k"] r(2)
      show ?thesis
        using \<open>b\<close> False by (simp add: remote_call_def rem call 1)
    qed
  next
    case False
    note p = publish_then_pos_racing [OF len rac pend(1) k]
    let ?R2 = "publish_then R1 ?c k"
    have 2: "fst (onCallback ?R2 ?t' (Doc j')) = ?settle ?R2 ?i ?c (wire JsonReplacer v)"
      using deliver [of ?R2] p(5,7) entry sid1 by simp
    have l2: "?c < length (frames ?R2)" using p(6) len by simp
    have r2: "racing (frames ?R2 ! ?c)" using p(2) pend(2) by simp
    have p2: "promise (frames ?R2 ! ?c) = Pending" using p(4) pend(2) by simp
    show ?thesis
    proof (cases ok)
      case True
      from cb_resolve_racing(2) [OF l2 r2 p2, of ?i "wire JsonReplacer v"] p(3)
      show ?thesis
        using \<open>\<not> b\<close> True by (simp add: remote_call_def rem call 2)
    next
      case False
      from cb_reject_racing(2) [OF l2 r2 p2, of ?i "wire JsonReplacer v"]
      show ?thesis
        using \<open>\<not> b\<close> False by (simp add: remote_call_def rem call 2)
    qed
  qed
qed

section \<open>Round trip\<close>

subsection \<open>Ids and registry entries of a caller that started new\<close>

text \<open>
  While a caller has issued at most \<open>2 ^ 53\<close> calls, the id of its call number \<open>c\<close>
  (from 0) is \<open>c + 1\<close>, and an entry of the registry is stored under the id of the
  call whose promise it settles. \<open>run_orderly\<close> shows that every caller that started
  new is so.
\<close>

definition orderly :: "Remotify \<Rightarrow> bool" where
  "orderly R \<longleftrightarrow>
     counted R \<and> length (frames R) \<le> 2 ^ 53 \<and>
     (\<forall>i c. callbacks R i = Some c \<longrightarrow> i = Suc c \<and> c < length (frames R))"

lemma orderly_id:
  assumes "orderly R" and "c < length (frames R)"
  shows "cb_id (frames R ! c) = Suc c"
proof -
  from assms(1) have i: "map cb_id (frames R) = map (\<lambda>k. min (Suc k) (2 ^ 53)) [0..<length (frames R)]"
    and b: "length (frames R) \<le> 2 ^ 53"
    by (simp_all only: orderly_def counted_def issued_def)
  have "cb_id (frames R ! c) = map cb_id (frames R) ! c"
    using assms(2) by simp
  also have "\<dots> = min (Suc c) (2 ^ 53)"
    unfolding i using assms(2) by (simp del: min_Suc_numeral min_numeral_Suc)
  finally show ?thesis
    using b assms(2) by (simp add: min_def)
qed

lemma orderly_counter: "orderly R \<Longrightarrow> cbCounter R = length (frames R)"
  by (simp add: orderly_def counted_def)

lemma orderly_entry: "orderly R \<Longrightarrow> callbacks R i = Some c \<Longrightarrow> i = Suc c \<and> c < length (frames R)"
  by (simp add: orderly_def)

lemma orderly_quiet:
  assumes "orderly R" and "quiet R R'" and "counted R'"
  shows "orderly R'"
proof -
  from quiet_issued [OF assms(2)] have l: "length (frames R') = length (frames R)"
    by simp
  have "i = Suc c \<and> c < length (frames R')" if "callbacks R' i = Some c" for i c
  proof -
    from assms(2) have "callbacks R' i = callbacks R i \<or> callbacks R' i = None"
      by (simp add: quiet_def)
    with that have "callbacks R i = Some c" by auto
    from orderly_entry [OF assms(1) this] l show ?thesis by simp
  qed
  with assms(1,3) l show ?thesis
    by (simp add: orderly_def)
qed

lemma orderly_step:
  assumes "orderly R" and "is_Invoke e \<longrightarrow> length (frames R) < 2 ^ 53"
  shows "orderly (step R e)"
proof (cases "is_Invoke e")
  case True
  then obtain n a where e: "e = Invoke n a" by (cases e) auto
  from assms True have b: "length (frames R) < 2 ^ 53" by simp
  have c: "counted (step R e)"
    using assms(1) by (simp add: orderly_def step_counted)
  have inc: "increment (cbCounter R) = Suc (length (frames R))"
    using b by (simp add: orderly_counter [OF assms(1)] increment_def)
  have "i = Suc c \<and> c < length (frames (step R e))" if "callbacks (step R e) i = Some c" for i c
    using that orderly_entry [OF assms(1), of i c]
    by (auto simp: e remotify_callbacks remotify_frames inc split: if_splits)
  with c b show ?thesis
    by (simp add: orderly_def e remotify_frames)
next
  case False
  have "counted (step R e)"
    using assms(1) by (simp add: orderly_def step_counted)
  from orderly_quiet [OF assms(1) quiet_step [OF False] this] show ?thesis .
qed

lemma orderly_new: "orderly (fst (new_Remotify sid cid tmo sfx))"
  using new_Remotify_counted [of sid cid tmo sfx]
  by (simp add: orderly_def new_Remotify_def Let_def)

lemma run_orderly:
  assumes "orderly R" and "length (frames R) + length (filter is_Invoke es) \<le> 2 ^ 53"
  shows "orderly (run R es)"
  using assms unfolding run_def
proof (induction es arbitrary: R)
  case Nil
  then show ?case by simp
next
  case (Cons e es)
  have "is_Invoke e \<longrightarrow> length (frames R) < 2 ^ 53"
    using Cons.prems(2) by auto
  from orderly_step [OF Cons.prems(1) this] have o: "orderly (step R e)" .
  have "length (frames (step R e)) + length (filter is_Invoke es) \<le> 2 ^ 53"
    using Cons.prems(2) by (auto simp: step_length)
  from Cons.IH [OF o this] show ?case by simp
qed

subsection \<open>Events of other calls\<close>

text \<open>
  The events that are not about call \<open>c\<close>: an invocation (it starts a later call), the
  publish report and the timer of another call, and a message that does not carry the
  id of call \<open>c\<close>, which is \<open>c + 1\<close>, in its \<^verbatim>\<open>callback\<close> field. They leave the
  frame of call \<open>c\<close> and its registry entry as they are (\<open>foreign_run\<close>).
\<close>

fun foreign :: "nat \<Rightarrow> event \<Rightarrow> bool" where
  "foreign c (Invoke n a) = True"
| "foreign c (PublishResolved c' k) = (c' \<noteq> c)"
| "foreign c (PublishRejected c' err) = (c' \<noteq> c)"
| "foreign c (TimerFired c') = (c' \<noteq> c)"
| "foreign c (Message t p) =
     (case JSON_parse p of
        Inl e \<Rightarrow> True
      | Inr d \<Rightarrow> field d ''callback'' \<noteq> Some (Num (int (Suc c))))"

lemma react_other:
  assumes "c' \<noteq> c" and "orderly R" and "c < length (frames R)"
  shows "frames (react R c') ! c = frames R ! c"
    and "callbacks (react R c') (Suc c) = callbacks R (Suc c)"
proof -
  show "frames (react R c') ! c = frames R ! c"
  proof (cases "c' < length (frames R)")
    case True
    then show ?thesis using assms(1) by (simp add: react_frames)
  next
    case False
    then show ?thesis by (simp add: react_def)
  qed
  show "callbacks (react R c') (Suc c) = callbacks R (Suc c)"
  proof (cases "c' < length (frames R)")
    case True
    from orderly_id [OF assms(2) True] assms(1) have "cb_id (frames R ! c') \<noteq> Suc c"
      by simp
    then show ?thesis by (simp add: react_callbacks)
  next
    case False
    then show ?thesis by (simp add: react_def)
  qed
qed

text \<open>Changing fields of another frame that are not its id keeps the caller orderly.\<close>

lemma orderly_update:
  assumes "orderly R" and "c' < length (frames R)" and "cb_id f = cb_id (frames R ! c')"
  shows "orderly (R\<lparr>frames := (frames R)[c' := f]\<rparr>)"
proof -
  have "map cb_id ((frames R)[c' := f]) = map cb_id (frames R)"
    using assms(2,3) by (simp add: map_update list_update_same_conv)
  with assms(1) show ?thesis
    by (simp add: orderly_def counted_def issued_def)
qed

lemma orderly_callbacks:
  assumes "orderly R"
  shows "orderly (R\<lparr>callbacks := (callbacks R)(i := None)\<rparr>)"
  using assms by (auto simp: orderly_def counted_def issued_def)

lemma foreign_settle_isDown:
  assumes "c' \<noteq> c" and "orderly R" and "c < length (frames R)"
  shows "frames (settle_isDown R c' p) ! c = frames R ! c \<and>
         callbacks (settle_isDown R c' p) (Suc c) = callbacks R (Suc c)"
proof (cases "c' < length (frames R)")
  case True
  let ?R = "R\<lparr>frames := (frames R)[c' := (frames R ! c')\<lparr>isDown := settle (isDown (frames R ! c')) p\<rparr>]\<rparr>"
  have o: "orderly ?R" by (rule orderly_update [OF assms(2) True]) simp
  have l: "c < length (frames ?R)" using assms(3) by simp
  from react_other [OF assms(1) o l] assms(1) True show ?thesis
    by (simp add: settle_isDown_def)
next
  case False
  then show ?thesis by (simp add: settle_isDown_def)
qed

lemma foreign_settle_promise:
  assumes "c' \<noteq> c" and "orderly R" and "c < length (frames R)"
  shows "frames (settle_promise R c' p) ! c = frames R ! c \<and>
         callbacks (settle_promise R c' p) (Suc c) = callbacks R (Suc c)"
proof (cases "c' < length (frames R)")
  case True
  let ?R = "R\<lparr>frames := (frames R)[c' := (frames R ! c')\<lparr>promise := settle (promise (frames R ! c')) p\<rparr>]\<rparr>"
  have o: "orderly ?R" by (rule orderly_update [OF assms(2) True]) simp
  have l: "c < length (frames ?R)" using assms(3) by simp
  from react_other [OF assms(1) o l] assms(1) True show ?thesis
    by (simp add: settle_promise_def)
next
  case False
  then show ?thesis by (simp add: settle_promise_def)
qed

lemma foreign_sleep_then:
  assumes "c' \<noteq> c" and "orderly R" and "c < length (frames R)"
  shows "frames (sleep_then R c') ! c = frames R ! c \<and>
         callbacks (sleep_then R c') (Suc c) = callbacks R (Suc c)"
proof (cases "c' < length (frames R)")
  case True
  let ?R = "R\<lparr>frames := (frames R)[c' := (frames R ! c')\<lparr>sleep := True\<rparr>]\<rparr>"
  have o: "orderly ?R" by (rule orderly_update [OF assms(2) True]) simp
  have l: "c < length (frames ?R)" using assms(3) by simp
  from react_other [OF assms(1) o l] assms(1) True show ?thesis
    by (simp add: sleep_then_def)
next
  case False
  then show ?thesis by (simp add: sleep_then_def)
qed

lemma foreign_cb:
  assumes "i \<noteq> Suc c" and "callbacks R i = Some c'" and "orderly R" and "c < length (frames R)"
  shows "frames (cb_resolve R i c' v) ! c = frames R ! c \<and>
         callbacks (cb_resolve R i c' v) (Suc c) = callbacks R (Suc c) \<and>
         frames (cb_reject R i c' v) ! c = frames R ! c \<and>
         callbacks (cb_reject R i c' v) (Suc c) = callbacks R (Suc c)"
proof -
  from orderly_entry [OF assms(3,2)] assms(1) have ne: "c' \<noteq> c" by auto
  let ?R = "R\<lparr>callbacks := (callbacks R)(i := None)\<rparr>"
  have o: "orderly ?R" by (rule orderly_callbacks [OF assms(3)])
  have l: "c < length (frames ?R)" using assms(4) by simp
  from foreign_settle_promise [OF ne o l, of "Fulfilled v"]
    foreign_settle_promise [OF ne o l, of "Rejected v"] assms(1)
  show ?thesis
    by (simp add: cb_resolve_def cb_reject_def)
qed

lemma foreign_onCallback:
  assumes "foreign c (Message t p)" and "orderly R" and "c < length (frames R)"
  shows "frames (fst (onCallback R t p)) ! c = frames R ! c"
    and "callbacks (fst (onCallback R t p)) (Suc c) = callbacks R (Suc c)"
proof -
  have "frames (fst (onCallback R t p)) ! c = frames R ! c \<and>
        callbacks (fst (onCallback R t p)) (Suc c) = callbacks R (Suc c)"
  proof (cases "JSON_parse p")
    case (Inl e)
    then show ?thesis by (simp add: onCallback_def Let_def)
  next
    case (Inr d)
    show ?thesis
    proof (cases "field d ''callback''")
      case None
      with Inr show ?thesis by (simp add: onCallback_def Let_def)
    next
      case (Some key)
      with assms(1) Inr have key: "key \<noteq> Num (int (Suc c))" by simp
      show ?thesis
      proof (cases "callbacks_get R key")
        case None
        with Inr Some show ?thesis by (simp add: onCallback_def Let_def)
      next
        case (Some ic)
        obtain i c' where ic: "ic = (i, c')" by (cases ic)
        from Some key have i: "i \<noteq> Suc c" "callbacks R i = Some c'"
          by (auto simp: callbacks_get_def ic split: jsval.splits if_splits)
        note f = foreign_cb [OF i assms(2,3), of "read d ''result''"]
        from Inr \<open>field d ''callback'' = Some key\<close> Some f show ?thesis
          by (simp add: onCallback_def Let_def ic)
      qed
    qed
  qed
  then show "frames (fst (onCallback R t p)) ! c = frames R ! c"
    and "callbacks (fst (onCallback R t p)) (Suc c) = callbacks R (Suc c)"
    by simp_all
qed

lemma foreign_step:
  assumes "foreign c e" and "orderly R" and "c < length (frames R)"
    and "is_Invoke e \<longrightarrow> length (frames R) < 2 ^ 53"
  shows "frames (step R e) ! c = frames R ! c"
    and "callbacks (step R e) (Suc c) = callbacks R (Suc c)"
    and "serverid (step R e) = serverid R"
    and "orderly (step R e)" and "c < length (frames (step R e))"
proof -
  show "orderly (step R e)" by (rule orderly_step [OF assms(2,4)])
  show "c < length (frames (step R e))" using assms(3) by (simp add: step_length)
  show "serverid (step R e) = serverid R"
  proof (cases "is_Invoke e")
    case True
    then obtain n a where "e = Invoke n a" by (cases e) auto
    then show ?thesis by simp
  next
    case False
    from quiet_step [OF this, of R] show ?thesis by (simp add: quiet_def)
  qed
  have "frames (step R e) ! c = frames R ! c \<and> callbacks (step R e) (Suc c) = callbacks R (Suc c)"
  proof (cases e)
    case (Invoke n a)
    from assms(2,3,4) have "increment (cbCounter R) \<noteq> Suc c"
      by (simp add: orderly_counter increment_def Invoke)
    with assms(3) show ?thesis
      by (simp add: Invoke remotify_frames remotify_callbacks nth_append)
  next
    case (PublishResolved c' k)
    with assms(1) have "c' \<noteq> c" by simp
    from foreign_settle_isDown [OF this assms(2,3)] show ?thesis
      by (simp add: PublishResolved publish_then_def)
  next
    case (PublishRejected c' err)
    with assms(1) have "c' \<noteq> c" by simp
    from foreign_settle_isDown [OF this assms(2,3)] show ?thesis
      by (simp add: PublishRejected publish_catch_def)
  next
    case (Message t p)
    with assms(1) have "foreign c (Message t p)" by simp
    from foreign_onCallback [OF this assms(2,3)] show ?thesis
      by (simp add: Message)
  next
    case (TimerFired c')
    with assms(1) have "c' \<noteq> c" by simp
    from foreign_sleep_then [OF this assms(2,3)] show ?thesis
      by (simp add: TimerFired)
  qed
  then show "frames (step R e) ! c = frames R ! c"
    and "callbacks (step R e) (Suc c) = callbacks R (Suc c)"
    by simp_all
qed

lemma foreign_run:
  assumes "list_all (foreign c) es" and "orderly R" and "c < length (frames R)"
    and "length (frames R) + length (filter is_Invoke es) \<le> 2 ^ 53"
  shows "frames (run R es) ! c = frames R ! c \<and>
         callbacks (run R es) (Suc c) = callbacks R (Suc c) \<and>
         serverid (run R es) = serverid R \<and> orderly (run R es) \<and>
         c < length (frames (run R es)) \<and>
         length (frames (run R es)) = length (frames R) + length (filter is_Invoke es)"
  using assms unfolding run_def
proof (induction es arbitrary: R)
  case Nil
  then show ?case by simp
next
  case (Cons e es)
  have i: "is_Invoke e \<longrightarrow> length (frames R) < 2 ^ 53"
    using Cons.prems(4) by auto
  from Cons.prems(1) have f: "foreign c e" and fs: "list_all (foreign c) es"
    by simp_all
  note s = foreign_step [OF f Cons.prems(2,3) i]
  have b: "length (frames (step R e)) + length (filter is_Invoke es) \<le> 2 ^ 53"
    using Cons.prems(4) by (auto simp: step_length)
  from Cons.IH [OF fs s(4) s(5) b] s(1,2,3) show ?case
    by (auto simp: step_length)
qed

subsection \<open>The bus between a listener and a caller\<close>

text \<open>
  What the caller's subscriber connection receives of what a run of \<open>onCall\<close> did: the
  bus hands a published message to the connections subscribed to its channel, and the
  caller subscribed to \<open>sub\<close> in its constructor. Nothing else comes of a run that
  published nothing.
\<close>

definition delivery :: "string \<Rightarrow> effect \<Rightarrow> event list" where
  "delivery sub eff =
     (case eff of
        Published t p \<Rightarrow> (if t = sub then [Message t p] else [])
      | _ \<Rightarrow> [])"

lemma run_append: "run R (es @ es') = run (run R es) es'"
  by (simp add: run_def)

lemma run_single: "run R [e] = step R e"
  by (simp add: run_def)

lemma run_rest:
  "serverid (run R es) = serverid R \<and> config (run R es) = config R"
  unfolding run_def
proof (induction es arbitrary: R)
  case Nil
  then show ?case by simp
next
  case (Cons e es)
  have "serverid (step R e) = serverid R \<and> config (step R e) = config R"
  proof (cases "is_Invoke e")
    case True
    then obtain n a where "e = Invoke n a" by (cases e) auto
    then show ?thesis by simp
  next
    case False
    from quiet_step [OF this, of R] show ?thesis by (simp add: quiet_def)
  qed
  with Cons.IH [of "step R e"] show ?case by simp
qed

lemma new_Remotify_sub:
  assumes "new_Remotify sid cid tmo sfx = (R0, sub)"
  shows "serverid R0 = sid" and "sub = callback_topic sid (clientid (config R0))"
    and "R0 = fst (new_Remotify sid cid tmo sfx)"
  using assms by (auto simp: new_Remotify_def Let_def)

text \<open>The call message a fresh invocation publishes, and the reply of the listener to it.\<close>

lemma exchange:
  assumes reg: "fns L n = Some f" and sid: "Listen.serverid L = serverid R"
    and s1: "CHR ''/'' \<notin> set (serverid R)" and s2: "CHR ''/'' \<notin> set n"
    and safe: "list_all representable a" and ret: "f a = Returns v"
  obtains j j' where
    "remotify R n a = (fst (remotify R n a), length (frames R), call_topic (serverid R) n, Doc j)"
    and "onCall L (call_topic (serverid R) n) (Doc j) =
           (L, Published (callback_topic (serverid R) (clientid (config R))) (Doc j'))"
    and "field (parse_value j') ''callback'' = Some (Num (int (increment (cbCounter R))))"
    and "truthy (read (parse_value j') ''success'')"
    and "read (parse_value j') ''result'' = wire JsonReplacer v"
proof -
  let ?t = "call_topic (serverid R) n" and ?i = "increment (cbCounter R)"
  let ?cid = "clientid (config R)"
  obtain j where j: "JSON_stringify NoReplacer
       (Obj [(''clientid'', Str ?cid), (''callback'', Num (int ?i)), (''arguments'', Arr a)]) = Doc j"
    and jcb: "field (parse_value j) ''callback'' = Some (Num (int ?i))"
    and jcl: "read (parse_value j) ''clientid'' = Str ?cid"
    and jar: "read (parse_value j) ''arguments'' = Arr a"
    by (rule call_parsed [OF safe])
  have rem: "remotify R n a = (fst (remotify R n a), length (frames R), ?t, Doc j)"
    using remotify_eq [of R n a] j by simp
  have chk: "call_topic_checked L ?t"
    using s1 sid by (simp add: call_topic_checked_def Let_def split_call_topic)
  have seg: "element (split CHR ''/'' ?t) 4 = Some n"
    using s1 s2 by (simp add: split_call_topic split_no_sep)
  have spr: "spread (read (parse_value j) ''arguments'') = Some a"
    by (simp add: jar)
  obtain j' where j': "JSON_stringify JsonReplacer (Callback ?t (Num (int ?i)) True v) = Doc j'"
    and rcb: "field (parse_value j') ''callback'' = Some (Num (int ?i))"
    and rok: "read (parse_value j') ''success'' = Bool True"
    and rres: "read (parse_value j') ''result'' = wire JsonReplacer v"
    by (rule reply_parsed)
  have call: "onCall L ?t (Doc j) = (L, Published (callback_topic (serverid R) ?cid) (Doc j'))"
    using onCall_known [OF chk seg reg jcb spr] ret j' jcl sid by simp
  from rem call rcb rok rres that show thesis by simp
qed

text \<open>A call that is fulfilled stays so.\<close>

lemma settled_stays:
  assumes "list_all consistent (frames R)" and "c < length (frames R)"
    and "returned (frames R ! c) = Fulfilled v"
  shows "returned (frames (run R es) ! c) = Fulfilled v"
proof -
  from assms(1,2) have "consistent (frames R ! c)"
    by (simp add: list_all_length)
  with assms(3) have "Promise_race (frames R ! c) \<noteq> Pending"
    by (auto simp: consistent_def racing_def)
  from run_final [OF assms(2) this, of es] assms(3) show ?thesis by simp
qed

text \<open>A racing call that has its registry entry, through the reply and the report of
  the publish, in either order, with events of other calls in between.\<close>

lemma reply_then_report:
  assumes o: "orderly R" and c: "c < length (frames R)" and rac: "racing (frames R ! c)"
    and pend: "isDown (frames R ! c) = Pending" "promise (frames R ! c) = Pending"
    and entry: "callbacks R (Suc c) = Some c"
    and s1: "CHR ''/'' \<notin> set (serverid R)"
    and cb: "field (parse_value j) ''callback'' = Some (Num (int (Suc c)))"
    and ok: "truthy (read (parse_value j) ''success'')"
    and res: "read (parse_value j) ''result'' = w"
    and k: "0 < k"
    and f: "list_all (foreign c) es"
    and b: "length (frames R) + length (filter is_Invoke es) \<le> 2 ^ 53"
  shows "returned (frames (run R ([Message (callback_topic (serverid R) cid) (Doc j)] @ es @
            [PublishResolved c k])) ! c) = Fulfilled w"
proof -
  let ?m = "Message (callback_topic (serverid R) cid) (Doc j)"
  define R2 where "R2 = step R ?m"
  have 2: "R2 = cb_resolve R (Suc c) c w"
    using onCallback_reply [OF s1 cb entry, of cid] ok res by (simp add: R2_def)
  note first = cb_resolve_first [OF c rac pend(2) pend(1), of "Suc c" w]
  note cbr = cb_resolve_racing [OF c rac pend(2), of "Suc c" w]
  have o2: "orderly R2"
    unfolding R2_def by (rule orderly_step [OF o]) simp
  have c2: "c < length (frames R2)"
    using c by (simp add: 2)
  have b2: "length (frames R2) + length (filter is_Invoke es) \<le> 2 ^ 53"
    using b by (simp add: 2)
  define R3 where "R3 = run R2 es"
  from foreign_run [OF f o2 c2 b2]
  have 3: "frames R3 ! c = frames R2 ! c" "c < length (frames R3)"
    by (simp_all add: R3_def)
  have rac3: "racing (frames R3 ! c)" and down3: "isDown (frames R3 ! c) = Pending"
    and prom3: "promise (frames R3 ! c) = Fulfilled w"
    using first(1,2) cbr(1) by (simp_all add: 3 2)
  from publish_then_pos_racing(1) [OF 3(2) rac3 down3 k] prom3
  have "returned (frames (step R3 (PublishResolved c k)) ! c) = Fulfilled w"
    by simp
  then show ?thesis
    by (simp add: run_def R3_def R2_def)
qed

lemma report_then_reply:
  assumes o: "orderly R" and c: "c < length (frames R)" and rac: "racing (frames R ! c)"
    and pend: "isDown (frames R ! c) = Pending" "promise (frames R ! c) = Pending"
    and entry: "callbacks R (Suc c) = Some c"
    and s1: "CHR ''/'' \<notin> set (serverid R)"
    and cb: "field (parse_value j) ''callback'' = Some (Num (int (Suc c)))"
    and ok: "truthy (read (parse_value j) ''success'')"
    and res: "read (parse_value j) ''result'' = w"
    and k: "0 < k"
    and f: "list_all (foreign c) es"
    and b: "length (frames R) + length (filter is_Invoke es) \<le> 2 ^ 53"
  shows "returned (frames (run R ([PublishResolved c k] @ es @
            [Message (callback_topic (serverid R) cid) (Doc j)])) ! c) = Fulfilled w"
proof -
  let ?m = "Message (callback_topic (serverid R) cid) (Doc j)"
  define R2 where "R2 = step R (PublishResolved c k)"
  have 2: "R2 = publish_then R c k"
    by (simp add: R2_def)
  note p = publish_then_pos_racing [OF c rac pend(1) k]
  have o2: "orderly R2"
    unfolding R2_def by (rule orderly_step [OF o]) simp
  have c2: "c < length (frames R2)"
    using c p(6) by (simp add: 2)
  have b2: "length (frames R2) + length (filter is_Invoke es) \<le> 2 ^ 53"
    using b p(6) by (simp add: 2)
  have entry2: "callbacks R2 (Suc c) = Some c"
    using entry p(5) by (simp add: 2)
  define R3 where "R3 = run R2 es"
  from foreign_run [OF f o2 c2 b2]
  have 3: "frames R3 ! c = frames R2 ! c" "c < length (frames R3)"
    "callbacks R3 (Suc c) = callbacks R2 (Suc c)" "serverid R3 = serverid R2"
    by (simp_all add: R3_def)
  have rac3: "racing (frames R3 ! c)" and down3: "isDown (frames R3 ! c) = Fulfilled ()"
    and prom3: "promise (frames R3 ! c) = Pending"
    using p(2,3,4) pend(2) by (simp_all add: 3 2)
  have sid3: "serverid R3 = serverid R"
    using 3(4) p(7) by (simp add: 2)
  have entry3: "callbacks R3 (Suc c) = Some c"
    using 3(3) entry2 by simp
  have s3: "CHR ''/'' \<notin> set (serverid R3)"
    using s1 sid3 by simp
  have "step R3 ?m = cb_resolve R3 (Suc c) c w"
    using onCallback_reply [OF s3 cb entry3, of cid] ok res by (simp add: sid3)
  moreover from cb_resolve_racing(2) [OF 3(2) rac3 prom3, of "Suc c" w] down3
  have "returned (frames (cb_resolve R3 (Suc c) c w) ! c) = Fulfilled w"
    by simp
  ultimately show ?thesis
    by (simp add: run_def R3_def R2_def)
qed

text \<open>The call message of \<open>demo_call\<close>, as \<open>remotify\<close> publishes it.\<close>

definition demo_square_call :: json where
  "demo_square_call =
     JObj [(''clientid'', JStr ''unnamed_0a1b2c3d4e5f60718293''), (''callback'', JNum 1),
           (''arguments'', JArr [JNum 3])]"

lemma demo_new:
  "new_Remotify ''backend'' None None ''0a1b2c3d4e5f60718293'' = (demo_caller, demo_reply_topic)"
  by (simp add: demo_caller_def new_Remotify_def defaultConfig_def Let_def callback_topic_def
        demo_reply_topic_def)

lemma demo_remotify:
  "remotify (run demo_caller []) ''Squarer.square'' [Num 3] =
     (demo_call, 0, ''/remotify/backend/call/Squarer.square'', Doc demo_square_call)"
proof -
  have "snd (remotify demo_caller ''Squarer.square'' [Num 3]) =
          (0, ''/remotify/backend/call/Squarer.square'', Doc demo_square_call)"
    by (simp add: remotify_def addCallback_def Let_def JSON_stringify_def call_topic_def
          demo_square_call_def increment_def)
  moreover have "fst (remotify demo_caller ''Squarer.square'' [Num 3]) = demo_call"
    by (simp add: demo_call_def)
  ultimately show ?thesis
    by (simp add: run_def prod_eq_iff)
qed

lemma demo_onCall:
  "onCall demo_listener ''/remotify/backend/call/Squarer.square'' (Doc demo_square_call) =
     (demo_listener, Published demo_reply_topic (Doc demo_reply))"
  by (simp add: onCall_def Let_def demo_square_call_def get_prop_def square_def
        JSON_stringify_def Callback_def callback_topic_def demo_reply_topic_def demo_reply_def)

text \<open>
  C1, as amended. A caller that started new has gone through any events \<open>es0\<close> and now
  calls \<open>n\<close> with arguments \<open>a\<close> that JSON carries unchanged; \<open>n\<close> and the server id
  have no slash, and \<open>f\<close> is registered under \<open>n\<close> on a listener of that server. The
  call message is handed to \<open>onCall\<close>, and what the listener publishes on the channel
  the caller subscribed to is handed to \<open>onCallback\<close>. If \<open>f a\<close> returns \<open>v\<close>, and \<open>v\<close>
  is carried unchanged by JSON or is \<^verbatim>\<open>undefined\<close>, then the call is fulfilled with
  exactly \<open>v\<close>, provided that both the report of the publish, with at least one
  subscriber, and the reply come before the timer of the call fires: in either order
  (\<open>reply_first\<close>), with any events of other calls before and between them (\<open>es1\<close>,
  \<open>es2\<close>: invocations, reports, timers and messages that do not carry this call's
  id), the caller issuing fewer than \<open>2 ^ 53\<close> calls up to then. Whatever comes after
  the two (\<open>es3\<close>, the timer of the call included) does not change the result.
\<close>

theorem round_trip:
  assumes "fns L n = Some f" and "Listen.serverid L = sid"
    and "CHR ''/'' \<notin> set sid" and "CHR ''/'' \<notin> set n"
    and "list_all representable a" and "f a = Returns v"
    and "representable v \<or> v = Undefined"
    and "new_Remotify sid cid tmo sfx = (R0, sub)"
    and "remotify (run R0 es0) n a = (R1, c, t, p)"
    and "onCall L t p = (L', eff)"
    and "0 < listenedCount"
    and "list_all (foreign c) es1" and "list_all (foreign c) es2"
    and "length (filter is_Invoke (es0 @ es1 @ es2)) < 2 ^ 53"
  shows "returned (frames (run R1
           (es1 @
            (if reply_first then delivery sub eff else [PublishResolved c listenedCount]) @
            es2 @
            (if reply_first then [PublishResolved c listenedCount] else delivery sub eff) @
            es3)) ! c) = Fulfilled v"
proof -
  define R where "R = run R0 es0"
  note new = new_Remotify_sub [OF assms(8)]
  have rest: "serverid R = sid" "config R = config R0"
    using run_rest [of R0 es0] new(1) by (simp_all add: R_def)
  have len: "length (frames R) = length (filter is_Invoke es0)"
    using run_length [of R0 es0] new(3) by (simp add: R_def new_Remotify_def Let_def)
  have oR: "orderly R"
    unfolding R_def new(3)
    by (rule run_orderly [OF orderly_new]) (use assms(14) in \<open>simp add: new_Remotify_def Let_def\<close>)
  have bR: "length (frames R) < 2 ^ 53"
    using assms(14) len by simp
  have inc: "increment (cbCounter R) = Suc (length (frames R))"
    using bR by (simp add: orderly_counter [OF oR] increment_def)
  from assms(1,2,3) rest(1) have reg: "fns L n = Some f" "Listen.serverid L = serverid R"
    "CHR ''/'' \<notin> set (serverid R)"
    by simp_all
  obtain j j' where
    rem: "remotify R n a = (fst (remotify R n a), length (frames R), call_topic (serverid R) n, Doc j)"
    and call: "onCall L (call_topic (serverid R) n) (Doc j) =
           (L, Published (callback_topic (serverid R) (clientid (config R))) (Doc j'))"
    and cb: "field (parse_value j') ''callback'' = Some (Num (int (increment (cbCounter R))))"
    and ok: "truthy (read (parse_value j') ''success'')"
    and res: "read (parse_value j') ''result'' = wire JsonReplacer v"
    by (rule exchange [OF reg(1,2,3) assms(4,5,6)])
  from rem assms(9) have R1: "R1 = step R (Invoke n a)" and c: "c = length (frames R)"
    and t: "t = call_topic (serverid R) n" and p: "p = Doc j"
    by (simp_all add: R_def)
  have sub: "sub = callback_topic (serverid R) (clientid (config R))"
    using new(2) rest by simp
  have "eff = Published (callback_topic (serverid R) (clientid (config R))) (Doc j')"
    using assms(10) call by (simp add: t p)
  then have eff: "delivery sub eff = [Message (callback_topic (serverid R1) (clientid (config R))) (Doc j')]"
    by (simp add: delivery_def sub R1)
  have w: "wire JsonReplacer v = v"
    using assms(7) by (auto simp: wire_representable)
  have o1: "orderly R1"
    unfolding R1 by (rule orderly_step [OF oR]) (use bR in simp)
  have c1: "c < length (frames R1)" and rac1: "racing (frames R1 ! c)"
    and pend1: "isDown (frames R1 ! c) = Pending" "promise (frames R1 ! c) = Pending"
    and entry1: "callbacks R1 (Suc c) = Some c" and sid1: "serverid R1 = serverid R"
    using remotify_fresh [of R n a] remotify_racing [of R n a] inc
    by (simp_all add: R1 c)
  have l1: "length (frames R1) = Suc (length (filter is_Invoke es0))"
    using len by (simp add: R1 remotify_fresh)
  have b1: "length (frames R1) + length (filter is_Invoke es1) \<le> 2 ^ 53"
    using assms(14) l1 by simp
  define Ra where "Ra = run R1 es1"
  from foreign_run [OF assms(12) o1 c1 b1]
  have a: "frames Ra ! c = frames R1 ! c" "callbacks Ra (Suc c) = callbacks R1 (Suc c)"
    "serverid Ra = serverid R1" "orderly Ra" "c < length (frames Ra)"
    "length (frames Ra) = length (frames R1) + length (filter is_Invoke es1)"
    by (simp_all add: Ra_def)
  have raca: "racing (frames Ra ! c)"
    and penda: "isDown (frames Ra ! c) = Pending" "promise (frames Ra ! c) = Pending"
    and entrya: "callbacks Ra (Suc c) = Some c"
    and sa: "CHR ''/'' \<notin> set (serverid Ra)"
    using rac1 pend1 entry1 reg(3) sid1 by (simp_all add: a)
  have cba: "field (parse_value j') ''callback'' = Some (Num (int (Suc c)))"
    using cb inc by (simp add: c)
  have ba: "length (frames Ra) + length (filter is_Invoke es2) \<le> 2 ^ 53"
    using assms(14) l1 a(6) by simp
  let ?m = "Message (callback_topic (serverid Ra) (clientid (config R))) (Doc j')"
  let ?p = "PublishResolved c listenedCount"
  let ?mid = "(if reply_first then [?m] else [?p]) @ es2 @ (if reply_first then [?p] else [?m])"
  have mid: "returned (frames (run Ra ?mid) ! c) = Fulfilled v"
  proof (cases reply_first)
    case True
    from reply_then_report [OF a(4,5) raca penda entrya sa cba ok res assms(11,13) ba] True w
    show ?thesis by simp
  next
    case False
    from report_then_reply [OF a(4,5) raca penda entrya sa cba ok res assms(11,13) ba] False w
    show ?thesis by simp
  qed
  have cons: "list_all consistent (frames (run Ra ?mid))"
    unfolding Ra_def R1 R_def new(3) run_single [symmetric] run_append [symmetric]
    by (rule reachable_consistent)
  have lmid: "c < length (frames (run Ra ?mid))"
    using a(5) run_length [of Ra ?mid] by simp
  from settled_stays [OF cons lmid mid, of es3]
  show ?thesis
    by (cases reply_first) (simp_all add: Ra_def run_def eff a(3) [unfolded Ra_def run_def])
qed

theorem round_trip_witness:
  "square [Num 3] = Returns (Num 9)
   \<and> returned (frames (run demo_call
        [Invoke ''f'' [], Message demo_reply_topic (Doc demo_reply), TimerFired 1,
         PublishResolved 0 1, TimerFired 0]) ! 0) = Fulfilled (Num 9)
   \<and> returned (frames (run demo_call
        [Invoke ''f'' [], PublishResolved 0 1, TimerFired 1,
         Message demo_reply_topic (Doc demo_reply), TimerFired 0]) ! 0) = Fulfilled (Num 9)"
proof -
  have sq: "square [Num 3] = Returns (Num 9)"
    by (simp add: square_def)
  have h: "fns demo_listener ''Squarer.square'' = Some square"
    "Listen.serverid demo_listener = ''backend''"
    "CHR ''/'' \<notin> set ''backend''" "CHR ''/'' \<notin> set ''Squarer.square''"
    "list_all representable [Num 3]" "representable (Num 9) \<or> Num 9 = Undefined"
    "(0::nat) < 1" "list_all (foreign 0) [Invoke ''f'' []]" "list_all (foreign 0) [TimerFired 1]"
    "length (filter is_Invoke ([] @ [Invoke ''f'' []] @ [TimerFired 1])) < 2 ^ 53"
    by simp_all
  note t = round_trip [OF h(1-5) sq h(6) demo_new demo_remotify demo_onCall h(7-10),
      where ?es3.0 = "[TimerFired 0]"]
  from t [where reply_first = True] t [where reply_first = False] sq show ?thesis
    by (simp add: delivery_def)
qed

text \<open>
  C1 as stated fails in three ways. The echo handler called directly with
  \<^verbatim>\<open>undefined\<close> returns \<^verbatim>\<open>undefined\<close>; called remotely it gets \<^verbatim>\<open>null\<close>, which
  is what \<^verbatim>\<open>JSON.stringify\<close> writes for \<^verbatim>\<open>undefined\<close> in an array, and returns
  that. A handler registered under \<^verbatim>\<open>math/square\<close> is never reached: \<open>onCall\<close>
  takes the fifth segment of the topic, \<^verbatim>\<open>math\<close>, for the name. And a reply that
  arrives before the timeout does not settle the call while the publish has not
  reported: \<^verbatim>\<open>Promise.all([isDown, promise])\<close> waits for both. With the reply of the
  listener delivered first, then the timer, then the report of one subscriber, the
  call of \<^verbatim>\<open>Squarer.square\<close> with 3 is rejected with the Timeout condition.
\<close>

text \<open>A handler that returns its first argument, and a handler registered under a name with
  a slash.\<close>

definition echo :: handler where
  "echo a = (case a of [] \<Rightarrow> Returns Undefined | x # xs \<Rightarrow> Returns x)"

definition echo_listener :: Listen where
  "echo_listener = fst (listen (new_Listen ''backend'') echo ''echo'')"

definition slash_listener :: Listen where
  "slash_listener = fst (listen (new_Listen ''backend'') square ''math/square'')"

lemma wire_array_undefined: "wire r (Arr [Undefined]) = Arr [Null]"
  by (simp add: wire_def)

theorem round_trip_counterexample:
  "echo [Undefined] = Returns Undefined
   \<and> remote_call echo_listener demo_caller ''echo'' [Undefined] 1 False = Fulfilled Null
   \<and> fns slash_listener ''math/square'' = Some square
   \<and> square [Num 3] = Returns (Num 9)
   \<and> remote_call slash_listener demo_caller ''math/square'' [Num 3] 1 False =
       Rejected (Str ''unknown function \"math\"'')
   \<and> remotify demo_caller ''Squarer.square'' [Num 3] =
       (demo_call, 0, ''/remotify/backend/call/Squarer.square'', Doc demo_square_call)
   \<and> onCall demo_listener ''/remotify/backend/call/Squarer.square'' (Doc demo_square_call) =
       (demo_listener, Published demo_reply_topic (Doc demo_reply))
   \<and> returned (frames (run demo_call
        [Message demo_reply_topic (Doc demo_reply), TimerFired 0, PublishResolved 0 1]) ! 0) =
       Rejected (Obj [(''cause'', Str ''timeout''), (''fnname'', Str ''Squarer.square''),
                      (''args'', Arr [Num 3]), (''message'', Str ''Timeout'')])"
proof -
  have 1: "echo [Undefined] = Returns Undefined
   \<and> remote_call echo_listener demo_caller ''echo'' [Undefined] 1 False = Fulfilled Null
   \<and> fns slash_listener ''math/square'' = Some square
   \<and> square [Num 3] = Returns (Num 9)
   \<and> remote_call slash_listener demo_caller ''math/square'' [Num 3] 1 False =
       Rejected (Str ''unknown function \"math\"'')"
    by (simp add: echo_def square_def echo_listener_def slash_listener_def listen_def new_Listen_def
        remote_call_def remotify_def addCallback_def Let_def JSON_stringify_def call_topic_def
        callback_topic_def onCall_def onCallback_def get_prop_def Callback_def
        unknown_function_def segment_text_def callbacks_get_def
        publish_then_def settle_isDown_def cb_resolve_def cb_reject_def settle_promise_def
        react_def resume_def Promise_all_react_def Promise_race_react_def settle_def)
  have 2: "returned (frames (run demo_call
        [Message demo_reply_topic (Doc demo_reply), TimerFired 0, PublishResolved 0 1]) ! 0) =
       Rejected (Obj [(''cause'', Str ''timeout''), (''fnname'', Str ''Squarer.square''),
                      (''args'', Arr [Num 3]), (''message'', Str ''Timeout'')])"
    by (simp add: run_def onCallback_def Let_def demo_reply_topic_def demo_reply_def get_prop_def
        callbacks_get_def publish_then_def settle_isDown_def cb_resolve_def cb_reject_def
        settle_promise_def sleep_then_def react_def resume_def Promise_all_react_def
        Promise_race_react_def settle_def Timeout_def)
  from 1 2 demo_remotify demo_onCall show ?thesis
    by (simp add: run_def)
qed

section \<open>Handler failures\<close>

text \<open>
  C6, as amended. For a value \<open>e\<close> that a handler throws (under the conditions of the
  round trip), the call is rejected with the image of \<open>e\<close> through \<open>jsonReplacer\<close> and
  JSON. If \<open>e\<close> is an \<^verbatim>\<open>Error\<close>, the replacer hands the serializer a plain record
  that has \<^verbatim>\<open>message\<close>, \<^verbatim>\<open>stack\<close>, \<^verbatim>\<open>name\<close> and every own enumerable
  property of \<open>e\<close>, each with the value \<open>e\<close> has for it; the rejection is a plain record
  in which each of those properties holds the JSON image of that value, so the value
  itself where JSON carries it unchanged. If \<open>e\<close> is not an \<^verbatim>\<open>Error\<close>, the replacer
  returns it as it is, and the rejection is \<open>e\<close> itself where JSON carries \<open>e\<close>
  unchanged or \<open>e\<close> is \<^verbatim>\<open>undefined\<close>. The values \<open>e\<close> ranges over are those of
  \<open>jsval\<close>: a value on which \<^verbatim>\<open>JSON.stringify\<close> throws (an object with a cycle, a
  bigint) is not among them.
\<close>

theorem thrown_value_received:
  assumes "fns L n = Some f" and "Listen.serverid L = serverid R"
    and "CHR ''/'' \<notin> set (serverid R)" and "CHR ''/'' \<notin> set n"
    and "list_all representable a" and "f a = Throws e" and "0 < listenedCount"
  shows "remote_call L R n a listenedCount reply_first = Rejected (wire JsonReplacer e)
       \<and> (is_Error e \<longrightarrow>
             (\<exists>ps. jsonReplacer e = Obj ps) \<and> (\<exists>ps. wire JsonReplacer e = Obj ps) \<and>
             (k \<in> {''message'', ''stack'', ''name''} \<union> set (Object_keys e) \<longrightarrow>
                read (jsonReplacer e) k = read e k \<and>
                read (wire JsonReplacer e) k = wire JsonReplacer (read e k) \<and>
                (representable (read e k) \<longrightarrow> read (wire JsonReplacer e) k = read e k)))
       \<and> (\<not> is_Error e \<longrightarrow>
             jsonReplacer e = e \<and> (representable e \<or> e = Undefined \<longrightarrow> wire JsonReplacer e = e))"
proof -
  have "f a = Returns e \<and> False \<or> f a = Throws e \<and> \<not> False"
    using assms(6) by simp
  from remote_call_known [OF assms(1-5) assms(7) this, of reply_first]
  have 1: "remote_call L R n a listenedCount reply_first = Rejected (wire JsonReplacer e)"
    by simp
  have 2: "\<exists>ps. jsonReplacer e = Obj ps" if "is_Error e"
    using that by (simp add: jsonReplacer_def)
  have 3: "read (wire JsonReplacer e) k = wire JsonReplacer (read e k)"
    if "is_Error e" "k \<in> {''message'', ''stack'', ''name''} \<union> set (Object_keys e)"
    using read_wire_Err [OF that(1), of k] that(2) by simp
  have 4: "read (wire JsonReplacer e) k = read e k"
    if "is_Error e" "k \<in> {''message'', ''stack'', ''name''} \<union> set (Object_keys e)"
      "representable (read e k)"
    using 3 [OF that(1,2)] wire_representable [OF that(3)] by simp
  have 5: "jsonReplacer e = e" if "\<not> is_Error e"
    using that by (simp add: jsonReplacer_def)
  have 6: "wire JsonReplacer e = e" if "representable e \<or> e = Undefined"
    using that by (auto simp: wire_representable)
  from 1 2 3 4 5 6 wire_Err_Obj [of e] read_jsonReplacer [of e k] show ?thesis
    by blast
qed

text \<open>\<^verbatim>\<open>const e = new Error("boom"); e.code = 42; throw e\<close>\<close>

definition boom :: jsval where
  "boom = Err (Str ''boom'') (Str ''Error: boom'') (Str ''Error'') [(''code'', Num 42)]"

definition failing_listener :: Listen where
  "failing_listener = fst (listen (new_Listen ''backend'') (\<lambda>a. Throws boom) ''Squarer.square'')"

theorem thrown_value_received_witness:
  "remote_call failing_listener demo_caller ''Squarer.square'' [Num 3] 1 False =
     Rejected (wire JsonReplacer boom)
   \<and> read (wire JsonReplacer boom) ''message'' = Str ''boom''
   \<and> read (wire JsonReplacer boom) ''code'' = Num 42"
proof -
  have reg: "fns failing_listener ''Squarer.square'' = Some (\<lambda>a. Throws boom)"
    "Listen.serverid failing_listener = serverid demo_caller"
    by (simp_all add: failing_listener_def listen_def new_Listen_def)
  have err: "is_Error boom"
    by (simp add: boom_def)
  have m: "''message'' \<in> {''message'', ''stack'', ''name''} \<union> set (Object_keys boom)"
    "representable (read boom ''message'')" "read boom ''message'' = Str ''boom''"
    by (simp_all add: boom_def)
  have c: "''code'' \<in> {''message'', ''stack'', ''name''} \<union> set (Object_keys boom)"
    "representable (read boom ''code'')" "read boom ''code'' = Num 42"
    by (simp_all add: boom_def)
  have p: "CHR ''/'' \<notin> set (serverid demo_caller)" "CHR ''/'' \<notin> set ''Squarer.square''"
    "list_all representable [Num 3]" "(0::nat) < 1"
    by simp_all
  note t = thrown_value_received [OF reg p(1,2,3) refl p(4), where reply_first = False]
  have call: "remote_call failing_listener demo_caller ''Squarer.square'' [Num 3] 1 False =
     Rejected (wire JsonReplacer boom)"
    using t [where k = "''message''"] by blast
  have "read (wire JsonReplacer boom) ''message'' = read boom ''message''"
    using t [where k = "''message''"] err m(1,2) by blast
  moreover have "read (wire JsonReplacer boom) ''code'' = read boom ''code''"
    using t [where k = "''code''"] err c(1,2) by blast
  ultimately show ?thesis
    using call by (simp add: m(3) c(3))
qed

text \<open>
  C6 as stated fails for a value that is not an \<^verbatim>\<open>Error\<close> and that JSON does not
  carry unchanged: a handler that throws \<^verbatim>\<open>[undefined]\<close> rejects the call with
  \<^verbatim>\<open>[null]\<close>.
\<close>

text \<open>\<^verbatim>\<open>throw [undefined]\<close>\<close>

definition throwing_listener :: Listen where
  "throwing_listener =
     fst (listen (new_Listen ''backend'') (\<lambda>a. Throws (Arr [Undefined])) ''Squarer.square'')"

theorem thrown_value_changed_counterexample:
  "fns throwing_listener ''Squarer.square'' = Some (\<lambda>a. Throws (Arr [Undefined]))
   \<and> \<not> is_Error (Arr [Undefined])
   \<and> remote_call throwing_listener demo_caller ''Squarer.square'' [Num 3] 1 False =
       Rejected (Arr [Null])"
proof -
  have reg: "fns throwing_listener ''Squarer.square'' = Some (\<lambda>a. Throws (Arr [Undefined]))"
    "Listen.serverid throwing_listener = serverid demo_caller"
    by (simp_all add: throwing_listener_def listen_def new_Listen_def)
  have "(\<lambda>a. Throws (Arr [Undefined])) [Num 3] = Returns (Arr [Undefined]) \<and> False
      \<or> (\<lambda>a. Throws (Arr [Undefined])) [Num 3] = Throws (Arr [Undefined]) \<and> \<not> False"
    by simp
  from remote_call_known [OF reg _ _ _ _ this, where k = 1 and b = False]
  have "remote_call throwing_listener demo_caller ''Squarer.square'' [Num 3] 1 False =
       Rejected (wire JsonReplacer (Arr [Undefined]))"
    by simp
  with reg(1) show ?thesis
    by (simp add: wire_array_undefined)
qed

end
